theory Spec2Isabelle
  imports Main
begin

section \<open>JavaScript values, exceptions and call outcomes\<close>

text \<open>
  The stream library (\<^verbatim>\<open>stream.ts\<close>) is generic in its element type and relies on three
  dynamic features of JavaScript: the value \<^verbatim>\<open>undefined\<close>, the test
  \<^verbatim>\<open>typeof obj[Symbol.iterator] === 'function'\<close>, and strict equality. Elements are
  therefore modelled by one type of JavaScript values. Numbers are restricted to integers;
  an array is the list of its elements (arrays are never mutated by the library);
  \<open>ArrayLike\<close> is an object with a numeric \<^verbatim>\<open>length\<close> and indexed properties
  that is not iterable. \<open>Iterable xs r\<close> is an object other than an array or a string that
  has a \<^verbatim>\<open>[Symbol.iterator]\<close> method: a \<^verbatim>\<open>Set\<close>, a \<^verbatim>\<open>Map\<close>, an object whose
  \<^verbatim>\<open>[Symbol.iterator]\<close> is a generator function, or (as an element of another stream or
  as the result of a callback) a finite stream without captured objects. Every call of the method hands out a new iterator, which returns the items
  \<open>xs\<close>, in order, and then once the result \<^verbatim>\<open>{ done: true, value: r }\<close>; \<open>r\<close> is
  \<^verbatim>\<open>undefined\<close> for a \<^verbatim>\<open>Set\<close> or a \<^verbatim>\<open>Map\<close> and the returned value for a generator
  function. (An iterator that is its own iterable, as a generator object is, can be
  consumed only once and is mutable state of the caller; it is not such a value.) \<open>Obj\<close>
  is any other object (for instance an AST node), identified by a number.

  Arrays, array-likes and iterable objects have no identity in the model: every occurrence
  of such a value stands for an object of its own. The \<^verbatim>\<open>Set\<close> membership of JavaScript
  compares \<^verbatim>\<open>undefined\<close>, \<^verbatim>\<open>null\<close>, booleans, numbers and strings by value and objects
  by identity; \<open>by_value\<close> holds of the values for which this is HOL equality.
\<close>

datatype jsval =
    Undefined
  | Null
  | Bool bool
  | Num int
  | Str string
  | Arr "jsval list"
  | ArrayLike "jsval list"
  | Iterable "jsval list" jsval
  | Obj nat

fun by_value :: "jsval \<Rightarrow> bool" where
  "by_value Undefined = True"
| "by_value Null = True"
| "by_value (Bool b) = True"
| "by_value (Num n) = True"
| "by_value (Str s) = True"
| "by_value (Obj n) = True"
| "by_value (Arr xs) = False"
| "by_value (ArrayLike xs) = False"
| "by_value (Iterable xs r) = False"

text \<open>
  The library has no \<^verbatim>\<open>throw\<close> statement. The exceptions its own code can raise are the
  \<^verbatim>\<open>TypeError\<close> of a property access on \<^verbatim>\<open>undefined\<close> or \<^verbatim>\<open>null\<close>, or of a call of
  something that is not a function, and the \<^verbatim>\<open>RangeError\<close> of a call for which the call
  stack has no room. A call has one of three outcomes: it does not return (\<open>None\<close>), it
  throws (\<open>Some (Inl err)\<close>), or it returns a value (\<open>Some (Inr v)\<close>).

  The call stack is modelled for the two methods of the library that call themselves,
  \<^verbatim>\<open>recursiveReduce\<close> and \<^verbatim>\<open>flat\<close>. Their first argument \<open>frames\<close> is the number of
  further calls of the method, nested in the call at hand, for which the stack has room;
  the room that the calls of other functions take is not counted. How large \<open>frames\<close> is
  depends on the engine and on the calls that are already on the stack.
\<close>

datatype error = TypeError | RangeError

type_synonym 'a outcome = "(error + 'a) option"

definition then_do :: "'a outcome \<Rightarrow> ('a \<Rightarrow> 'b outcome) \<Rightarrow> 'b outcome" where
  "then_do m f = (case m of None \<Rightarrow> None | Some (Inl err) \<Rightarrow> Some (Inl err) | Some (Inr v) \<Rightarrow> f v)"

section \<open>Iterator results and iterators\<close>

text \<open>
  \<^verbatim>\<open>IteratorResult\<close> is the object \<^verbatim>\<open>{ done, value }\<close>; \<^verbatim>\<open>DONE_RESULT\<close> is the frozen
  \<^verbatim>\<open>{ done: true, value: undefined }\<close> of line 855.
\<close>

record IteratorResult =
  "done" :: bool
  "value" :: jsval

definition DONE_RESULT :: IteratorResult where
  "DONE_RESULT = \<lparr>done = True, value = Undefined\<rparr>"

text \<open>
  An iterator object is its internal state together with its \<^verbatim>\<open>next\<close> method. The method
  mutates the state in place; the model passes the state in and returns it updated.
\<close>

record 'i Iterator =
  istate :: 'i
  inext :: "'i \<Rightarrow> (IteratorResult \<times> 'i) outcome"

text \<open>
  The iterator of an array is represented by the list of the items it has not returned
  yet (\<open>ArrayIterator_next\<close>; the model uses it where it takes an array, for the children
  of a tree node). The iterator of any host iterable (an array, a string or an iterable
  object) is that list together with the value its final result will carry
  (\<open>HostIterator_next\<close>): after the result with \<^verbatim>\<open>done: true\<close> has been returned once,
  further results carry \<^verbatim>\<open>undefined\<close>. A string iterates over its characters, each a
  string of length one. \<^verbatim>\<open>isIterable\<close> (line 842) reads the property
  \<^verbatim>\<open>Symbol.iterator\<close> of its argument, which throws on \<^verbatim>\<open>undefined\<close> and \<^verbatim>\<open>null\<close>; on
  a boolean or a number the property is \<^verbatim>\<open>undefined\<close>.
\<close>

fun ArrayIterator_next :: "jsval list \<Rightarrow> IteratorResult \<times> jsval list" where
  "ArrayIterator_next [] = (\<lparr>done = True, value = Undefined\<rparr>, [])"
| "ArrayIterator_next (x # xs) = (\<lparr>done = False, value = x\<rparr>, xs)"

type_synonym HostIterator = "jsval list \<times> jsval"

fun HostIterator_next :: "HostIterator \<Rightarrow> IteratorResult \<times> HostIterator" where
  "HostIterator_next ([], r) = (\<lparr>done = True, value = r\<rparr>, ([], Undefined))"
| "HostIterator_next (x # xs, r) = (\<lparr>done = False, value = x\<rparr>, (xs, r))"

fun isIterable :: "jsval \<Rightarrow> error + bool" where
  "isIterable Undefined = Inl TypeError"
| "isIterable Null = Inl TypeError"
| "isIterable (Arr xs) = Inr True"
| "isIterable (Str s) = Inr True"
| "isIterable (Bool b) = Inr False"
| "isIterable (Num n) = Inr False"
| "isIterable (ArrayLike xs) = Inr False"
| "isIterable (Iterable xs r) = Inr True"
| "isIterable (Obj n) = Inr False"

fun Symbol_iterator :: "jsval \<Rightarrow> error + HostIterator" where
  "Symbol_iterator (Arr xs) = Inr (xs, Undefined)"
| "Symbol_iterator (Str s) = Inr (map (\<lambda>c. Str [c]) s, Undefined)"
| "Symbol_iterator (Iterable xs r) = Inr (xs, r)"
| "Symbol_iterator Undefined = Inl TypeError"
| "Symbol_iterator Null = Inl TypeError"
| "Symbol_iterator (Bool b) = Inl TypeError"
| "Symbol_iterator (Num n) = Inl TypeError"
| "Symbol_iterator (ArrayLike xs) = Inl TypeError"
| "Symbol_iterator (Obj n) = Inl TypeError"

section \<open>StreamImpl\<close>

text \<open>
  \<^verbatim>\<open>StreamImpl<S, T>\<close> (line 491) holds two closures: \<^verbatim>\<open>startFn\<close> creates the state of
  one iteration and \<^verbatim>\<open>nextFn\<close> advances such a state. A closure may also capture mutable
  objects that were created when the stream was built and are therefore shared by all
  iterations of the stream (\<^verbatim>\<open>concat\<close> captures an iterator, \<^verbatim>\<open>distinct\<close> a
  \<^verbatim>\<open>Set\<close>). The field \<open>captured\<close> holds the current contents of these objects; both
  closures receive it and return it updated. Operations that run an iteration return the
  stream with the contents its captured objects have afterwards. A stream whose closures
  have captured no mutable object has nothing to share between its iterations: the type
  of its captured state has one value only (\<open>captures_nothing\<close>), as \<open>unit\<close> has.
\<close>

record ('s, 'e) StreamImpl =
  startFn :: "'e \<Rightarrow> ('s \<times> 'e) outcome"
  nextFn :: "'s \<Rightarrow> 'e \<Rightarrow> (IteratorResult \<times> 's \<times> 'e) outcome"
  captured :: 'e

definition captures_nothing :: "('s, 'e) StreamImpl \<Rightarrow> bool" where
  "captures_nothing this \<longleftrightarrow> (\<forall>e e' :: 'e. e = e')"

text \<open>
  \<^verbatim>\<open>iterator()\<close> (line 500): \<^verbatim>\<open>{ state: this.startFn(), next: () => this.nextFn(iterator.state) }\<close>.
  The state of the iterator object is the state made by \<^verbatim>\<open>startFn\<close> together with the
  captured objects it can reach.
\<close>

definition next_of :: "('s, 'e) StreamImpl \<Rightarrow> 's \<times> 'e \<Rightarrow> (IteratorResult \<times> 's \<times> 'e) outcome" where
  "next_of this i = (case i of (state, e) \<Rightarrow> nextFn this state e)"

definition iterator :: "('s, 'e) StreamImpl \<Rightarrow> ('s \<times> 'e) Iterator outcome" where
  "iterator this =
     (case startFn this (captured this) of
        None \<Rightarrow> None
      | Some (Inl err) \<Rightarrow> Some (Inl err)
      | Some (Inr (state, e)) \<Rightarrow> Some (Inr \<lparr>istate = (state, e), inext = next_of this\<rparr>))"

text \<open>
  \<^verbatim>\<open>toArray()\<close> (line 518). The \<^verbatim>\<open>do ... while (!next.done)\<close> loop pushes
  \<^verbatim>\<open>next.value\<close> whenever it is not \<^verbatim>\<open>undefined\<close>, before it looks at \<^verbatim>\<open>next.done\<close>.
\<close>

partial_function (option) toArray_loop ::
  "('i \<Rightarrow> (IteratorResult \<times> 'i) outcome) \<Rightarrow> jsval list \<Rightarrow> 'i \<Rightarrow> (jsval list \<times> 'i) outcome" where
  "toArray_loop iterator_next result i =
     (case iterator_next i of
        None \<Rightarrow> None
      | Some (Inl err) \<Rightarrow> Some (Inl err)
      | Some (Inr (next, i')) \<Rightarrow>
          (let result' = (if value next \<noteq> Undefined then result @ [value next] else result)
           in if \<not> done next then toArray_loop iterator_next result' i'
              else Some (Inr (result', i'))))"

definition toArray :: "('s, 'e) StreamImpl \<Rightarrow> (jsval list \<times> ('s, 'e) StreamImpl) outcome" where
  "toArray this =
     then_do (iterator this) (\<lambda>it.
     then_do (toArray_loop (inext it) [] (istate it)) (\<lambda>(result, (state, e)).
     Some (Inr (result, this\<lparr>captured := e\<rparr>))))"

text \<open>\<^verbatim>\<open>map(callbackfn)\<close> (line 628).\<close>

definition map_stream :: "('s, 'e) StreamImpl \<Rightarrow> (jsval \<Rightarrow> jsval) \<Rightarrow> ('s, 'e) StreamImpl" where
  "map_stream this callbackfn =
     \<lparr>startFn = startFn this,
      nextFn = (\<lambda>state e.
        case nextFn this state e of
          None \<Rightarrow> None
        | Some (Inl err) \<Rightarrow> Some (Inl err)
        | Some (Inr (r, state', e')) \<Rightarrow>
            if done r then Some (Inr (DONE_RESULT, state', e'))
            else Some (Inr (\<lparr>done = False, value = callbackfn (value r)\<rparr>, state', e'))),
      captured = captured this\<rparr>"

text \<open>
  \<^verbatim>\<open>concat(other)\<close> (line 535). Line 536 calls \<^verbatim>\<open>other[Symbol.iterator]()\<close> once, when the
  stream is built; the argument \<open>other\<close> of the model is the outcome of that call. The
  iterator it returns is captured by \<^verbatim>\<open>nextFn\<close>, so its state is part of \<open>captured\<close>, while
  \<^verbatim>\<open>{ first, firstDone }\<close> is made by \<^verbatim>\<open>startFn\<close> for every iteration. Each of the two
  \<^verbatim>\<open>do ... while (!result.done)\<close> loops returns from its first pass when the result is not
  done and leaves the loop otherwise, so each is one call. \<open>concat_other\<close> is the second
  loop with the final \<^verbatim>\<open>return DONE_RESULT\<close>.

  The captured state of the new stream consists of the captured objects of \<^verbatim>\<open>this\<close> and of
  the state of the iterator of \<^verbatim>\<open>other\<close>, side by side. This describes the source when the
  iterator of \<^verbatim>\<open>other\<close> reaches no object that \<^verbatim>\<open>this\<close> has captured: when \<^verbatim>\<open>other\<close> is a
  host iterable, or a stream that has captured nothing. Two streams that share a captured
  object (\<^verbatim>\<open>d.concat(d)\<close> for a stream \<^verbatim>\<open>d\<close> built by \<^verbatim>\<open>distinct\<close>) are outside the model.
\<close>

record 's ConcatState =
  first :: 's
  firstDone :: bool

definition concat_other ::
  "('i \<Rightarrow> (IteratorResult \<times> 'i) outcome) \<Rightarrow> 's ConcatState \<Rightarrow> 'e \<Rightarrow> 'i
     \<Rightarrow> (IteratorResult \<times> 's ConcatState \<times> 'e \<times> 'i) outcome" where
  "concat_other iterator_next state e i =
     (case iterator_next i of
        None \<Rightarrow> None
      | Some (Inl err) \<Rightarrow> Some (Inl err)
      | Some (Inr (result, i')) \<Rightarrow>
          if \<not> done result then Some (Inr (result, state, e, i'))
          else Some (Inr (DONE_RESULT, state, e, i')))"

definition concat_stream ::
  "('s, 'e) StreamImpl \<Rightarrow> 'i Iterator outcome \<Rightarrow> ('s ConcatState, 'e \<times> 'i) StreamImpl outcome" where
  "concat_stream this other =
     then_do other (\<lambda>iterator. Some (Inr
       \<lparr>startFn = (\<lambda>(e, i).
          case startFn this e of
            None \<Rightarrow> None
          | Some (Inl err) \<Rightarrow> Some (Inl err)
          | Some (Inr (s, e')) \<Rightarrow> Some (Inr (\<lparr>first = s, firstDone = False\<rparr>, (e', i)))),
        nextFn = (\<lambda>state (e, i).
          if \<not> firstDone state then
            (case nextFn this (first state) e of
               None \<Rightarrow> None
             | Some (Inl err) \<Rightarrow> Some (Inl err)
             | Some (Inr (result, s', e')) \<Rightarrow>
                 if \<not> done result then Some (Inr (result, state\<lparr>first := s'\<rparr>, (e', i)))
                 else concat_other (inext iterator) (state\<lparr>first := s', firstDone := True\<rparr>) e' i)
          else concat_other (inext iterator) state e i),
        captured = (captured this, istate iterator)\<rparr>))"

text \<open>
  What \<^verbatim>\<open>[Symbol.iterator]()\<close> returns for the two kinds of iterable the model has: a
  host iterable (\<open>host_iterator\<close>), and a stream (line 509, which is \<^verbatim>\<open>iterator()\<close>).
\<close>

definition host_iterator :: "jsval \<Rightarrow> HostIterator Iterator outcome" where
  "host_iterator collection =
     (case Symbol_iterator collection of
        Inl err \<Rightarrow> Some (Inl err)
      | Inr it \<Rightarrow> Some (Inr \<lparr>istate = it, inext = (\<lambda>i. Some (Inr (HostIterator_next i)))\<rparr>))"

text \<open>
  \<^verbatim>\<open>filter(predicate)\<close> (line 642). The predicate of \<^verbatim>\<open>distinct\<close> updates a \<^verbatim>\<open>Set\<close> it has
  captured, so a predicate is a function that also receives and returns the contents \<open>c\<close> of
  what it captured; the third argument of \<open>filter_stream\<close> is their contents when the stream
  is built. A predicate without captured state ignores \<open>c\<close>. The predicate is called only
  on results that are not done (\<^verbatim>\<open>!result.done && predicate(result.value)\<close>).
\<close>

partial_function (option) filter_nextFn ::
  "('s \<Rightarrow> 'e \<Rightarrow> (IteratorResult \<times> 's \<times> 'e) outcome) \<Rightarrow> (jsval \<Rightarrow> 'c \<Rightarrow> bool \<times> 'c)
     \<Rightarrow> 's \<Rightarrow> 'e \<times> 'c \<Rightarrow> (IteratorResult \<times> 's \<times> 'e \<times> 'c) outcome" where
  "filter_nextFn this_nextFn predicate state ec =
     (case this_nextFn state (fst ec) of
        None \<Rightarrow> None
      | Some (Inl err) \<Rightarrow> Some (Inl err)
      | Some (Inr (result, state', e')) \<Rightarrow>
          if done result then Some (Inr (DONE_RESULT, state', e', snd ec))
          else (case predicate (value result) (snd ec) of
                  (keep, c') \<Rightarrow>
                    if keep then Some (Inr (result, state', e', c'))
                    else filter_nextFn this_nextFn predicate state' (e', c')))"

definition filter_stream ::
  "('s, 'e) StreamImpl \<Rightarrow> (jsval \<Rightarrow> 'c \<Rightarrow> bool \<times> 'c) \<Rightarrow> 'c \<Rightarrow> ('s, 'e \<times> 'c) StreamImpl" where
  "filter_stream this predicate c =
     \<lparr>startFn = (\<lambda>(e, c).
        case startFn this e of
          None \<Rightarrow> None
        | Some (Inl err) \<Rightarrow> Some (Inl err)
        | Some (Inr (state, e')) \<Rightarrow> Some (Inr (state, e', c))),
      nextFn = filter_nextFn (nextFn this) predicate,
      captured = (captured this, c)\<rparr>"

text \<open>
  \<^verbatim>\<open>distinct(by)\<close> (line 813): \<^verbatim>\<open>const set = new Set()\<close> runs when the stream is built, and
  the predicate given to \<^verbatim>\<open>filter\<close> reads and extends that set. \<open>Set_has\<close> is
  \<^verbatim>\<open>set.has(value)\<close>: a value that is compared by value, or that is a numbered object, is
  in the set when it has been added; an array, an array-like or an iterable object is a
  new object at every occurrence and is never found.
\<close>

definition Set_has :: "jsval set \<Rightarrow> jsval \<Rightarrow> bool" where
  "Set_has seen key \<longleftrightarrow> by_value key \<and> key \<in> seen"

definition distinct_stream ::
  "('s, 'e) StreamImpl \<Rightarrow> (jsval \<Rightarrow> jsval) option \<Rightarrow> ('s, 'e \<times> jsval set) StreamImpl" where
  "distinct_stream this by =
     filter_stream this
       (\<lambda>e seen. let key = (case by of Some f \<Rightarrow> f e | None \<Rightarrow> e)
                 in if Set_has seen key then (False, seen) else (True, insert key seen))
       {}"

text \<open>
  \<^verbatim>\<open>tail(skipCount)\<close> (line 797). The \<^verbatim>\<open>for\<close> loop of \<^verbatim>\<open>startFn\<close> counts \<open>i\<close> from 0 up to
  \<^verbatim>\<open>skipCount\<close> and returns the state early when the stream is exhausted.
\<close>

function tail_skip ::
  "('s \<Rightarrow> 'e \<Rightarrow> (IteratorResult \<times> 's \<times> 'e) outcome) \<Rightarrow> int \<Rightarrow> int \<Rightarrow> 's \<Rightarrow> 'e \<Rightarrow> ('s \<times> 'e) outcome" where
  "tail_skip this_nextFn skipCount i state e =
     (if i < skipCount then
        (case this_nextFn state e of
           None \<Rightarrow> None
         | Some (Inl err) \<Rightarrow> Some (Inl err)
         | Some (Inr (next, state', e')) \<Rightarrow>
             if done next then Some (Inr (state', e'))
             else tail_skip this_nextFn skipCount (i + 1) state' e')
      else Some (Inr (state, e)))"
  by pat_completeness auto
termination
  by (relation "measure (\<lambda>(this_nextFn, skipCount, i, state, e). nat (skipCount - i))") auto

definition tail :: "('s, 'e) StreamImpl \<Rightarrow> int \<Rightarrow> ('s, 'e) StreamImpl" where
  "tail this skipCount =
     \<lparr>startFn = (\<lambda>e.
        case startFn this e of
          None \<Rightarrow> None
        | Some (Inl err) \<Rightarrow> Some (Inl err)
        | Some (Inr (state, e')) \<Rightarrow> tail_skip (nextFn this) skipCount 0 state e'),
      nextFn = nextFn this,
      captured = captured this\<rparr>"

text \<open>
  \<^verbatim>\<open>reduce(callbackfn, initialValue?)\<close> (line 658). An omitted \<^verbatim>\<open>initialValue\<close> is
  \<^verbatim>\<open>undefined\<close>, and the loop tests \<^verbatim>\<open>previousValue === undefined\<close> at every element.
\<close>

partial_function (option) reduce_loop ::
  "('i \<Rightarrow> (IteratorResult \<times> 'i) outcome) \<Rightarrow> (jsval \<Rightarrow> jsval \<Rightarrow> jsval) \<Rightarrow> jsval
     \<Rightarrow> IteratorResult \<Rightarrow> 'i \<Rightarrow> (jsval \<times> 'i) outcome" where
  "reduce_loop iterator_next callbackfn previousValue next i =
     (if \<not> done next then
        (let previousValue' =
               (if previousValue = Undefined then value next
                else callbackfn previousValue (value next))
         in case iterator_next i of
              None \<Rightarrow> None
            | Some (Inl err) \<Rightarrow> Some (Inl err)
            | Some (Inr (next', i')) \<Rightarrow> reduce_loop iterator_next callbackfn previousValue' next' i')
      else Some (Inr (previousValue, i)))"

definition reduce ::
  "('s, 'e) StreamImpl \<Rightarrow> (jsval \<Rightarrow> jsval \<Rightarrow> jsval) \<Rightarrow> jsval \<Rightarrow> (jsval \<times> ('s, 'e) StreamImpl) outcome" where
  "reduce this callbackfn initialValue =
     then_do (iterator this) (\<lambda>it.
     then_do (inext it (istate it)) (\<lambda>(next, i).
     then_do (reduce_loop (inext it) callbackfn initialValue next i) (\<lambda>(previousValue, (state, e)).
     Some (Inr (previousValue, this\<lparr>captured := e\<rparr>)))))"

text \<open>
  \<^verbatim>\<open>reduceRight\<close> (line 673) and \<^verbatim>\<open>recursiveReduce\<close> (line 677): the recursive call comes
  before the element is combined, so every element of the stream keeps one call of
  \<^verbatim>\<open>recursiveReduce\<close> on the stack until the stream has reported its end. The recursive
  call of line 682 throws a \<^verbatim>\<open>RangeError\<close> when the stack has no room for it, and
  otherwise runs with room for one nested call less.
\<close>

fun recursiveReduce ::
  "nat \<Rightarrow> ('i \<Rightarrow> (IteratorResult \<times> 'i) outcome) \<Rightarrow> (jsval \<Rightarrow> jsval \<Rightarrow> jsval) \<Rightarrow> jsval \<Rightarrow> 'i
     \<Rightarrow> (jsval \<times> 'i) outcome" where
  "recursiveReduce frames iterator_next callbackfn initialValue i =
     (case iterator_next i of
        None \<Rightarrow> None
      | Some (Inl err) \<Rightarrow> Some (Inl err)
      | Some (Inr (next, i')) \<Rightarrow>
          if done next then Some (Inr (initialValue, i'))
          else (case (case frames of
                        0 \<Rightarrow> Some (Inl RangeError)
                      | Suc frames' \<Rightarrow> recursiveReduce frames' iterator_next callbackfn initialValue i') of
                  None \<Rightarrow> None
                | Some (Inl err) \<Rightarrow> Some (Inl err)
                | Some (Inr (previousValue, i'')) \<Rightarrow>
                    if previousValue = Undefined then Some (Inr (value next, i''))
                    else Some (Inr (callbackfn previousValue (value next), i''))))"

definition reduceRight ::
  "nat \<Rightarrow> ('s, 'e) StreamImpl \<Rightarrow> (jsval \<Rightarrow> jsval \<Rightarrow> jsval) \<Rightarrow> jsval
     \<Rightarrow> (jsval \<times> ('s, 'e) StreamImpl) outcome" where
  "reduceRight frames this callbackfn initialValue =
     then_do (iterator this) (\<lambda>it.
     then_do (recursiveReduce frames (inext it) callbackfn initialValue (istate it)) (\<lambda>(result, (state, e)).
     Some (Inr (result, this\<lparr>captured := e\<rparr>))))"

text \<open>
  \<^verbatim>\<open>flatMap(callbackfn)\<close> (line 727). The state is \<^verbatim>\<open>{ this, iterator? }\<close>; its fields are
  written \<open>this'\<close> and \<open>iterator'\<close>. One pass of the \<^verbatim>\<open>do ... while (state.iterator)\<close> loop
  first advances \<^verbatim>\<open>state.iterator\<close>, if there is one, and then asks the outer stream for its
  next element. In \<open>flatMap_loop\<close> the first half is the case \<open>Some it\<close>: when the nested
  iterator is done, \<^verbatim>\<open>state.iterator\<close> becomes \<^verbatim>\<open>undefined\<close> and the function goes on with
  the second half, which is the case \<open>None\<close>. After the second half the loop repeats exactly
  when a nested iterator has been stored.
\<close>

datatype 's FlatMapState = FlatMapState (this': 's) (iterator': "HostIterator option")

partial_function (option) flatMap_loop ::
  "('s \<Rightarrow> 'e \<Rightarrow> (IteratorResult \<times> 's \<times> 'e) outcome) \<Rightarrow> (jsval \<Rightarrow> jsval)
     \<Rightarrow> 's FlatMapState \<Rightarrow> 'e \<Rightarrow> (IteratorResult \<times> 's FlatMapState \<times> 'e) outcome" where
  "flatMap_loop this_nextFn callbackfn state e =
     (case iterator' state of
        Some it \<Rightarrow>
          (case HostIterator_next it of
             (next, it') \<Rightarrow>
               if done next
               then flatMap_loop this_nextFn callbackfn (FlatMapState (this' state) None) e
               else Some (Inr (next, FlatMapState (this' state) (Some it'), e)))
      | None \<Rightarrow>
          (case this_nextFn (this' state) e of
             None \<Rightarrow> None
           | Some (Inl err) \<Rightarrow> Some (Inl err)
           | Some (Inr (r, s', e')) \<Rightarrow>
               if \<not> done r then
                 (let mapped = callbackfn (value r) in
                  case isIterable mapped of
                    Inl err \<Rightarrow> Some (Inl err)
                  | Inr iterable \<Rightarrow>
                      if iterable then
                        (case Symbol_iterator mapped of
                           Inl err \<Rightarrow> Some (Inl err)
                         | Inr it \<Rightarrow>
                             flatMap_loop this_nextFn callbackfn (FlatMapState s' (Some it)) e')
                      else Some (Inr (\<lparr>done = False, value = mapped\<rparr>, FlatMapState s' None, e')))
               else Some (Inr (DONE_RESULT, FlatMapState s' None, e'))))"

definition flatMap :: "('s, 'e) StreamImpl \<Rightarrow> (jsval \<Rightarrow> jsval) \<Rightarrow> ('s FlatMapState, 'e) StreamImpl" where
  "flatMap this callbackfn =
     \<lparr>startFn = (\<lambda>e.
        case startFn this e of
          None \<Rightarrow> None
        | Some (Inl err) \<Rightarrow> Some (Inl err)
        | Some (Inr (s, e')) \<Rightarrow> Some (Inr (FlatMapState s None, e'))),
      nextFn = flatMap_loop (nextFn this) callbackfn,
      captured = captured this\<rparr>"

text \<open>
  \<^verbatim>\<open>flat(depth)\<close> (line 756). \<open>flat_once stream\<close> is the stream that lines 762 to 785
  build over \<^verbatim>\<open>stream\<close>. The closure of lines 764 to 784 is the closure of \<^verbatim>\<open>flatMap\<close>
  with the element itself in the place of \<^verbatim>\<open>callbackfn(value)\<close>, so it is \<open>flatMap_loop\<close>
  with the identity. The source casts the result of \<^verbatim>\<open>this.flat(depth - 1)\<close> to
  \<^verbatim>\<open>StreamImpl<S, T>\<close> although its state is a \<^verbatim>\<open>FlatMapState\<close>; HOL has no casts, so
  \<open>flat\<close> works on streams whose state type \<open>'s FlatState\<close> is closed under
  \<^verbatim>\<open>FlatMapState\<close>, and \<open>plain\<close> presents any stream as such a stream without changing
  what it does. A state made by \<open>startFn\<close> is always of the kind the \<open>nextFn\<close> beside it
  expects; the other kind is answered with a \<^verbatim>\<open>TypeError\<close>.

  The argument \<^verbatim>\<open>depth\<close> is an integer or \<^verbatim>\<open>Infinity\<close>, with the three operations the
  source applies to it: \<^verbatim>\<open>depth <= 0\<close>, \<^verbatim>\<open>depth > 1\<close> and \<^verbatim>\<open>depth - 1\<close>. \<^verbatim>\<open>flat\<close> calls
  itself once for every level beyond the first, when the stream is built; the recursive
  call of line 760 throws a \<^verbatim>\<open>RangeError\<close> when the stack has no room for it, and
  otherwise runs with room for one nested call less.
\<close>

datatype 's FlatState = Plain 's | Flat "'s FlatState FlatMapState"

definition plain :: "('s, 'e) StreamImpl \<Rightarrow> ('s FlatState, 'e) StreamImpl" where
  "plain this =
     \<lparr>startFn = (\<lambda>e.
        case startFn this e of
          None \<Rightarrow> None
        | Some (Inl err) \<Rightarrow> Some (Inl err)
        | Some (Inr (s, e')) \<Rightarrow> Some (Inr (Plain s, e'))),
      nextFn = (\<lambda>state e.
        case state of
          Plain s \<Rightarrow>
            (case nextFn this s e of
               None \<Rightarrow> None
             | Some (Inl err) \<Rightarrow> Some (Inl err)
             | Some (Inr (r, s', e')) \<Rightarrow> Some (Inr (r, Plain s', e')))
        | Flat fm \<Rightarrow> Some (Inl TypeError)),
      captured = captured this\<rparr>"

datatype depth = Finite int | Infinity

fun at_most_zero :: "depth \<Rightarrow> bool" where
  "at_most_zero (Finite d) \<longleftrightarrow> d \<le> 0"
| "at_most_zero Infinity \<longleftrightarrow> False"

fun more_than_one :: "depth \<Rightarrow> bool" where
  "more_than_one (Finite d) \<longleftrightarrow> d > 1"
| "more_than_one Infinity \<longleftrightarrow> True"

fun minus_one :: "depth \<Rightarrow> depth" where
  "minus_one (Finite d) = Finite (d - 1)"
| "minus_one Infinity = Infinity"

definition flat_once :: "('s FlatState, 'e) StreamImpl \<Rightarrow> ('s FlatState, 'e) StreamImpl" where
  "flat_once stream =
     \<lparr>startFn = (\<lambda>e.
        case startFn stream e of
          None \<Rightarrow> None
        | Some (Inl err) \<Rightarrow> Some (Inl err)
        | Some (Inr (s, e')) \<Rightarrow> Some (Inr (Flat (FlatMapState s None), e'))),
      nextFn = (\<lambda>state e.
        case state of
          Flat fm \<Rightarrow>
            (case flatMap_loop (nextFn stream) (\<lambda>v. v) fm e of
               None \<Rightarrow> None
             | Some (Inl err) \<Rightarrow> Some (Inl err)
             | Some (Inr (r, fm', e')) \<Rightarrow> Some (Inr (r, Flat fm', e')))
        | Plain s \<Rightarrow> Some (Inl TypeError)),
      captured = captured stream\<rparr>"

fun flat ::
  "nat \<Rightarrow> depth \<Rightarrow> ('s FlatState, 'e) StreamImpl \<Rightarrow> ('s FlatState, 'e) StreamImpl outcome" where
  "flat frames depth this =
     (if at_most_zero depth then Some (Inr this)
      else
        then_do
          (if more_than_one depth
           then (case frames of
                   0 \<Rightarrow> Some (Inl RangeError)
                 | Suc frames' \<Rightarrow> flat frames' (minus_one depth) this)
           else Some (Inr this))
          (\<lambda>stream. Some (Inr (flat_once stream))))"

section \<open>TreeStreamImpl\<close>

text \<open>
  \<^verbatim>\<open>TreeStreamImpl\<close> (line 907). \<^verbatim>\<open>children(node)\<close> returns an iterable; the model takes
  the list of its items, and the iterator over it is the list of the items not yet
  returned. \<^verbatim>\<open>state.iterators\<close> is a JavaScript array used as a stack: \<^verbatim>\<open>push\<close> appends at
  the end, \<^verbatim>\<open>pop\<close> removes the last entry (and does nothing on an empty array). Calling
  \<^verbatim>\<open>iterator.next()\<close> advances the iterator that stays in the array. \<open>TreeStream_loop\<close> is
  the \<^verbatim>\<open>while (state.iterators.length > 0)\<close> loop with the final \<^verbatim>\<open>return DONE_RESULT\<close>.
\<close>

record TreeState =
  iterators :: "jsval list list"
  pruned :: bool

function TreeStream_loop :: "(jsval \<Rightarrow> jsval list) \<Rightarrow> TreeState \<Rightarrow> IteratorResult \<times> TreeState" where
  "TreeStream_loop children state =
     (if length (iterators state) > 0 then
        (case ArrayIterator_next (last (iterators state)) of
           (next, it') \<Rightarrow>
             if done next
             then TreeStream_loop children (state\<lparr>iterators := butlast (iterators state)\<rparr>)
             else (next, state\<lparr>iterators := butlast (iterators state) @ [it'] @ [children (value next)]\<rparr>))
      else (DONE_RESULT, state))"
  by pat_completeness auto
termination
  by (relation "measure (\<lambda>(children, state). length (iterators state))") auto

definition TreeStreamImpl :: "jsval \<Rightarrow> (jsval \<Rightarrow> jsval list) \<Rightarrow> (TreeState, unit) StreamImpl" where
  "TreeStreamImpl root children =
     \<lparr>startFn = (\<lambda>e. Some (Inr (\<lparr>iterators = [children root], pruned = False\<rparr>, e))),
      nextFn = (\<lambda>state e.
        case TreeStream_loop children
               (if pruned state
                then state\<lparr>iterators := butlast (iterators state), pruned := False\<rparr>
                else state) of
          (next, state') \<Rightarrow> Some (Inr (next, state', e))),
      captured = ()\<rparr>"

text \<open>
  The iterator of a tree stream (line 937) has the additional method \<^verbatim>\<open>prune\<close>, which sets
  \<^verbatim>\<open>iterator.state.pruned\<close>.
\<close>

definition prune :: "(TreeState \<times> 'e) Iterator \<Rightarrow> (TreeState \<times> 'e) Iterator" where
  "prune it = it\<lparr>istate := (case istate it of (state, e) \<Rightarrow> (state\<lparr>pruned := True\<rparr>, e))\<rparr>"

section \<open>The factory\<close>

text \<open>
  \<^verbatim>\<open>stream(collection)\<close> (line 860) for a collection that is a JavaScript value. An
  iterable gives a stream whose state is the collection's iterator (\<open>iterable_stream\<close>,
  lines 865 to 868), and whose final result carries the value that the final result of
  that iterator carries; an array-like gives a stream whose state is \<^verbatim>\<open>{ index }\<close>
  (\<open>arraylike_stream\<close>, lines 871 to 880); anything else gives \<^verbatim>\<open>EMPTY_STREAM\<close>, whose
  state is \<^verbatim>\<open>undefined\<close>. The three state types are the alternatives of \<open>SourceState\<close>.
  (The first branch of the source returns a collection that already is a
  \<^verbatim>\<open>StreamImpl\<close> unchanged; the model has such a collection as a \<open>StreamImpl\<close> and does
  not pass it to \<open>stream\<close>.)
\<close>

datatype SourceState = IteratorState HostIterator | IndexState nat | NoState

definition EMPTY_STREAM :: "(SourceState, unit) StreamImpl" where
  "EMPTY_STREAM =
     \<lparr>startFn = (\<lambda>e. Some (Inr (NoState, e))),
      nextFn = (\<lambda>state e. Some (Inr (DONE_RESULT, state, e))),
      captured = ()\<rparr>"

definition iterable_stream :: "jsval \<Rightarrow> (SourceState, unit) StreamImpl" where
  "iterable_stream collection =
     \<lparr>startFn = (\<lambda>e.
        case Symbol_iterator collection of
          Inl err \<Rightarrow> Some (Inl err)
        | Inr it \<Rightarrow> Some (Inr (IteratorState it, e))),
      nextFn = (\<lambda>state e.
        case state of
          IteratorState it \<Rightarrow>
            (case HostIterator_next it of (next, it') \<Rightarrow> Some (Inr (next, IteratorState it', e)))
        | _ \<Rightarrow> Some (Inl TypeError)),
      captured = ()\<rparr>"

definition arraylike_stream :: "jsval list \<Rightarrow> (SourceState, unit) StreamImpl" where
  "arraylike_stream items =
     \<lparr>startFn = (\<lambda>e. Some (Inr (IndexState 0, e))),
      nextFn = (\<lambda>state e.
        case state of
          IndexState index \<Rightarrow>
            if index < length items
            then Some (Inr (\<lparr>done = False, value = items ! index\<rparr>, IndexState (index + 1), e))
            else Some (Inr (DONE_RESULT, state, e))
        | _ \<Rightarrow> Some (Inl TypeError)),
      captured = ()\<rparr>"

definition stream :: "jsval \<Rightarrow> (SourceState, unit) StreamImpl outcome" where
  "stream collection =
     (case isIterable collection of
        Inl err \<Rightarrow> Some (Inl err)
      | Inr iterable \<Rightarrow>
          if iterable then Some (Inr (iterable_stream collection))
          else (case collection of
                  ArrayLike items \<Rightarrow> Some (Inr (arraylike_stream items))
                | _ \<Rightarrow> Some (Inr EMPTY_STREAM)))"

section \<open>What an iteration yields\<close>

text \<open>
  \<open>drains next i xs\<close> checks a run of an iterator: starting in state \<open>i\<close>, the calls of
  \<open>next\<close> return the values \<open>xs\<close> one after the other, each with \<^verbatim>\<open>done: false\<close>, and then
  \<^verbatim>\<open>{ done: true, value: undefined }\<close>; the result is the state after that last call.
  \<open>pulls next i xs\<close> is the same check without the last call. \<open>iterates this xs\<close> is
  \<open>drains\<close> on a fresh iterator of a stream: the stream is finite and its elements are
  \<open>xs\<close>. \<open>defined xs\<close> are the entries of \<open>xs\<close> that \<^verbatim>\<open>toArray\<close> pushes, and \<open>returned\<close>
  is the value a consuming call returns, without the stream it leaves behind.
\<close>

fun drains :: "('i \<Rightarrow> (IteratorResult \<times> 'i) outcome) \<Rightarrow> 'i \<Rightarrow> jsval list \<Rightarrow> 'i option" where
  "drains next i [] =
     (case next i of
        Some (Inr (r, i')) \<Rightarrow> if done r \<and> value r = Undefined then Some i' else None
      | _ \<Rightarrow> None)"
| "drains next i (x # xs) =
     (case next i of
        Some (Inr (r, i')) \<Rightarrow> if \<not> done r \<and> value r = x then drains next i' xs else None
      | _ \<Rightarrow> None)"

fun pulls :: "('i \<Rightarrow> (IteratorResult \<times> 'i) outcome) \<Rightarrow> 'i \<Rightarrow> jsval list \<Rightarrow> 'i option" where
  "pulls next i [] = Some i"
| "pulls next i (x # xs) =
     (case next i of
        Some (Inr (r, i')) \<Rightarrow> if \<not> done r \<and> value r = x then pulls next i' xs else None
      | _ \<Rightarrow> None)"

definition iterates :: "('s, 'e) StreamImpl \<Rightarrow> jsval list \<Rightarrow> ('s \<times> 'e) option" where
  "iterates this xs =
     (case iterator this of
        Some (Inr it) \<Rightarrow> drains (inext it) (istate it) xs
      | _ \<Rightarrow> None)"

text \<open>
  The checks above accept only an iterator whose final result is
  \<^verbatim>\<open>{ done: true, value: undefined }\<close>. \<open>runs\<close> is the general check. A trace consists of
  the values \<open>xs\<close> that the first calls of \<open>next\<close> return, each with \<^verbatim>\<open>done: false\<close>, and
  of what comes after them: a result that has \<^verbatim>\<open>done: true\<close> and carries the value \<open>v\<close>
  (\<open>Done v\<close>), a call that throws (\<open>Throws err\<close>), or anything (\<open>Unfinished\<close>: the trace
  does not follow the run to its end, and the run need not have an end). \<open>yields this t\<close>
  says that a fresh iterator of the stream runs with the trace \<open>t\<close>; when already
  \<^verbatim>\<open>startFn\<close> throws, the trace has no values. A stream is finite, and none of its calls
  throws, when it yields a trace that ends with \<open>Done v\<close>.
\<close>

datatype ending = Done jsval | Throws error | Unfinished

type_synonym trace = "jsval list \<times> ending"

fun runs :: "('i \<Rightarrow> (IteratorResult \<times> 'i) outcome) \<Rightarrow> 'i \<Rightarrow> jsval list \<Rightarrow> ending \<Rightarrow> bool" where
  "runs next i [] Unfinished = True"
| "runs next i [] (Done v) =
     (case next i of
        Some (Inr (r, i')) \<Rightarrow> done r \<and> value r = v
      | _ \<Rightarrow> False)"
| "runs next i [] (Throws err) = (next i = Some (Inl err))"
| "runs next i (x # xs) ending =
     (case next i of
        Some (Inr (r, i')) \<Rightarrow> \<not> done r \<and> value r = x \<and> runs next i' xs ending
      | _ \<Rightarrow> False)"

definition yields :: "('s, 'e) StreamImpl \<Rightarrow> trace \<Rightarrow> bool" where
  "yields this t =
     (case iterator this of
        Some (Inr it) \<Rightarrow> runs (inext it) (istate it) (fst t) (snd t)
      | Some (Inl err) \<Rightarrow> t = ([], Throws err)
      | None \<Rightarrow> False)"

definition defined :: "jsval list \<Rightarrow> jsval list" where
  "defined xs = filter (\<lambda>v. v \<noteq> Undefined) xs"

definition returned :: "('a \<times> 'b) outcome \<Rightarrow> 'a option" where
  "returned m = (case m of Some (Inr (v, after)) \<Rightarrow> Some v | _ \<Rightarrow> None)"

text \<open>
  What flattening makes of one value: the items of an array, the characters of a string
  and the items of an iterable object, in order, and the value itself when it is none of
  these. \<open>flatMapped f t\<close> is
  the trace of the flattened image of a stream with the trace \<open>t\<close> under \<open>f\<close>: every value
  \<open>x\<close> is replaced by what flattening makes of \<open>f x\<close>; at the first \<open>x\<close> for which \<open>f x\<close> is
  \<^verbatim>\<open>undefined\<close> or \<^verbatim>\<open>null\<close> the trace ends with a \<^verbatim>\<open>TypeError\<close>; a final result with
  \<^verbatim>\<open>done: true\<close> becomes one that carries \<^verbatim>\<open>undefined\<close>; an exception stays, and so does
  an open end. \<open>flattened n t\<close> flattens \<open>n\<close> times with the identity, one level after
  the other.
\<close>

fun expand :: "jsval \<Rightarrow> jsval list" where
  "expand (Arr xs) = xs"
| "expand (Str s) = map (\<lambda>c. Str [c]) s"
| "expand (Iterable xs r) = xs"
| "expand v = [v]"

fun flatMapped :: "(jsval \<Rightarrow> jsval) \<Rightarrow> trace \<Rightarrow> trace" where
  "flatMapped f ([], Done v) = ([], Done Undefined)"
| "flatMapped f ([], Throws err) = ([], Throws err)"
| "flatMapped f ([], Unfinished) = ([], Unfinished)"
| "flatMapped f (x # xs, ending) =
     (if f x = Undefined \<or> f x = Null then ([], Throws TypeError)
      else (case flatMapped f (xs, ending) of (ys, ending') \<Rightarrow> (expand (f x) @ ys, ending')))"


section \<open>The reduce contract and the buffered right fold\<close>

text \<open>
  The specification's contract of \<^verbatim>\<open>reduce\<close>, on the list of the elements in the order in
  which they are visited: with an initial value, folding starts from it and visits every
  element; without one, the first visited element seeds the accumulator and folding
  proceeds over the remainder; without an initial value and without elements there is no
  result. An absent initial value and "no result" are \<open>None\<close>. \<open>reduceRight_buffered\<close> is the
  reference strategy of the specification for \<^verbatim>\<open>reduceRight\<close>: buffer all elements, reverse
  them, and fold them iteratively under this contract.
\<close>

definition seed_and_rest :: "jsval option \<Rightarrow> jsval list \<Rightarrow> (jsval \<times> jsval list) option" where
  "seed_and_rest initial visited =
     (case initial of
        Some init \<Rightarrow> Some (init, visited)
      | None \<Rightarrow> (case visited of [] \<Rightarrow> None | x # rest \<Rightarrow> Some (x, rest)))"

definition reduce_contract :: "(jsval \<Rightarrow> jsval \<Rightarrow> jsval) \<Rightarrow> jsval option \<Rightarrow> jsval list \<Rightarrow> jsval option" where
  "reduce_contract combine initial visited =
     map_option (\<lambda>(seed, rest). foldl combine seed rest) (seed_and_rest initial visited)"

definition reduceRight_buffered :: "(jsval \<Rightarrow> jsval \<Rightarrow> jsval) \<Rightarrow> jsval option \<Rightarrow> jsval list \<Rightarrow> jsval option" where
  "reduceRight_buffered combine initial buffer = reduce_contract combine initial (rev buffer)"

text \<open>
  \<open>accumulators combine acc xs\<close> are the values the accumulator has when the elements of
  \<open>xs\<close> are combined into it one after the other, starting from \<open>acc\<close>: the value before each
  element (the final result is not among them). \<open>no_undefined_accumulator\<close> says that none
  of the accumulator values of a fold under the contract is \<^verbatim>\<open>undefined\<close>. In JavaScript an
  absent argument and an absent result are both \<^verbatim>\<open>undefined\<close> (\<open>undefined_if_absent\<close>).
  \<open>seeding callbackfn\<close> is the body of the loop of \<^verbatim>\<open>reduce\<close> (lines 663 to 667) as a
  function of the accumulator and the element.
\<close>

fun accumulators :: "(jsval \<Rightarrow> jsval \<Rightarrow> jsval) \<Rightarrow> jsval \<Rightarrow> jsval list \<Rightarrow> jsval list" where
  "accumulators combine acc [] = []"
| "accumulators combine acc (x # xs) = acc # accumulators combine (combine acc x) xs"

definition no_undefined_accumulator :: "(jsval \<Rightarrow> jsval \<Rightarrow> jsval) \<Rightarrow> jsval option \<Rightarrow> jsval list \<Rightarrow> bool" where
  "no_undefined_accumulator combine initial visited =
     (case seed_and_rest initial visited of
        None \<Rightarrow> True
      | Some (seed, rest) \<Rightarrow> Undefined \<notin> set (accumulators combine seed rest))"

definition undefined_if_absent :: "jsval option \<Rightarrow> jsval" where
  "undefined_if_absent v = (case v of None \<Rightarrow> Undefined | Some x \<Rightarrow> x)"

definition seeding :: "(jsval \<Rightarrow> jsval \<Rightarrow> jsval) \<Rightarrow> jsval \<Rightarrow> jsval \<Rightarrow> jsval" where
  "seeding callbackfn previousValue current =
     (if previousValue = Undefined then current else callbackfn previousValue current)"

section \<open>Callbacks and calls of the examples\<close>

text \<open>
  The callbacks \<^verbatim>\<open>v => undefined\<close>, \<^verbatim>\<open>v => [v]\<close> and \<^verbatim>\<open>(a, b) => [a, b]\<close>, and two calls of
  \<^verbatim>\<open>toArray()\<close> on the same stream, one after the other: the second call finds the captured
  objects as the first one has left them.
\<close>

definition to_undefined :: "jsval \<Rightarrow> jsval" where
  "to_undefined v = Undefined"

definition singleton :: "jsval \<Rightarrow> jsval" where
  "singleton v = Arr [v]"

definition pair :: "jsval \<Rightarrow> jsval \<Rightarrow> jsval" where
  "pair a b = Arr [a, b]"

definition toArray_twice :: "('s, 'e) StreamImpl \<Rightarrow> (jsval list \<times> jsval list) outcome" where
  "toArray_twice this =
     then_do (toArray this) (\<lambda>(first_time, this').
     then_do (toArray this') (\<lambda>(second_time, this'').
     Some (Inr (first_time, second_time))))"

section \<open>Trees and their pre-order\<close>

text \<open>
  A finite tree of values. \<open>nodes t\<close> lists the nodes of \<open>t\<close> (each with its subtree) in
  pre-order: a node before its descendants, the subtree of a child completely before the
  subtree of the next child. \<open>descendants t\<close> are the nodes other than the root, in that
  order. \<open>unfolds children t\<close> says that \<open>t\<close> is the tree the function \<open>children\<close> unfolds
  from the value at its root: at every node of \<open>t\<close>, the function returns the values of the
  node's children, in order.
\<close>

datatype tree = Node (label: jsval) (subtrees: "tree list")

fun nodes :: "tree \<Rightarrow> tree list" where
  "nodes (Node v ts) = Node v ts # concat (map nodes ts)"

definition descendants :: "tree \<Rightarrow> tree list" where
  "descendants t = concat (map nodes (subtrees t))"

fun unfolds :: "(jsval \<Rightarrow> jsval list) \<Rightarrow> tree \<Rightarrow> bool" where
  "unfolds children (Node v ts) \<longleftrightarrow> children v = map label ts \<and> (\<forall>t\<in>set ts. unfolds children t)"

text \<open>
  \<open>iterates_pruned this before after\<close> checks a run of one iterator of a tree stream with a
  call of \<^verbatim>\<open>prune()\<close> in it: the iterator returns the values \<open>before\<close>, then \<^verbatim>\<open>prune()\<close> is
  called, and then the same iterator returns the values \<open>after\<close> and reports its end.
\<close>

definition iterates_pruned ::
  "(TreeState, 'e) StreamImpl \<Rightarrow> jsval list \<Rightarrow> jsval list \<Rightarrow> (TreeState \<times> 'e) option" where
  "iterates_pruned this before after =
     (case iterator this of
        Some (Inr it) \<Rightarrow>
          (case pulls (inext it) (istate it) before of
             Some i \<Rightarrow> drains (inext it) (istate (prune (it\<lparr>istate := i\<rparr>))) after
           | None \<Rightarrow> None)
      | _ \<Rightarrow> None)"

text \<open>The children function of the tree with the nodes A, B, C, D: A has B and C, B has D.\<close>

definition example_children :: "jsval \<Rightarrow> jsval list" where
  "example_children node =
     (if node = Str ''A'' then [Str ''B'', Str ''C'']
      else if node = Str ''B'' then [Str ''D'']
      else [])"

text \<open>
  The states of a traversal. The stack of a state holds, for each open level, the iterator
  over the siblings not yet visited there, the deepest level last. \<open>state_of fss\<close> is the
  state whose iterators range over the forests \<open>fss\<close>, and \<open>rest_nodes fss\<close> are the nodes
  still to be visited from it, in pre-order: those of the deepest level first.
\<close>

definition state_of :: "tree list list \<Rightarrow> TreeState" where
  "state_of fss = \<lparr>iterators = map (map label) fss, pruned = False\<rparr>"

definition rest_nodes :: "tree list list \<Rightarrow> tree list" where
  "rest_nodes fss = concat (map (\<lambda>fs. concat (map nodes fs)) (rev fss))"

definition stack_unfolds :: "(jsval \<Rightarrow> jsval list) \<Rightarrow> tree list list \<Rightarrow> bool" where
  "stack_unfolds children fss \<longleftrightarrow> (\<forall>fs\<in>set fss. \<forall>t\<in>set fs. unfolds children t)"

section \<open>Lemmas on iteration\<close>

declare tail_skip.simps [simp del]

declare flat.simps [simp del]

declare recursiveReduce.simps [simp del]

declare TreeStream_loop.simps [simp del]

lemma iterates_eq:
  "iterates this xs =
     (case startFn this (captured this) of
        Some (Inr (state, e)) \<Rightarrow> drains (next_of this) (state, e) xs
      | _ \<Rightarrow> None)"
  by (auto simp: iterates_def iterator_def split: option.splits sum.splits)

lemma toArray_loop_drains:
  "drains next i xs = Some i' \<Longrightarrow>
   toArray_loop next result i = Some (Inr (result @ defined xs, i'))"
proof (induction xs arbitrary: i result)
  case Nil
  then show ?case
    by (subst toArray_loop.simps)
       (auto simp: defined_def split: option.splits sum.splits if_splits)
next
  case (Cons x xs)
  from Cons.prems obtain r i1 where
    step: "next i = Some (Inr (r, i1))" "\<not> done r" "value r = x" and
    rest: "drains next i1 xs = Some i'"
    by (auto split: option.splits sum.splits if_splits)
  show ?case
    using step Cons.IH [OF rest]
    by (subst toArray_loop.simps) (simp add: defined_def)
qed

lemma toArray_iterates:
  "iterates this xs = Some (state, e) \<Longrightarrow>
   toArray this = Some (Inr (defined xs, this\<lparr>captured := e\<rparr>))"
  by (auto simp: iterates_def toArray_def then_do_def
           split: option.splits sum.splits dest!: toArray_loop_drains [where result = "[]"])

lemma returned_toArray:
  "iterates this xs = Some i \<Longrightarrow> returned (toArray this) = Some (defined xs)"
  by (cases i) (simp add: toArray_iterates returned_def)

lemma drains_HostIterator:
  "drains (next_of (iterable_stream collection)) (IteratorState (xs, Undefined), e) xs
     = Some (IteratorState ([], Undefined), e)"
  by (induction xs) (auto simp: next_of_def iterable_stream_def)

lemma startFn_iterable_stream:
  "startFn (iterable_stream collection) e =
     (case Symbol_iterator collection of
        Inl err \<Rightarrow> Some (Inl err)
      | Inr it \<Rightarrow> Some (Inr (IteratorState it, e)))"
  by (cases "Symbol_iterator collection") (simp_all add: iterable_stream_def)

lemma iterates_iterable_stream:
  "iterates (iterable_stream (Arr xs)) xs = Some (IteratorState ([], Undefined), ())"
  by (simp add: iterates_eq startFn_iterable_stream drains_HostIterator)

lemma stream_Arr: "stream (Arr xs) = Some (Inr (iterable_stream (Arr xs)))"
  by (simp add: stream_def)

lemma then_do_Some [simp]: "then_do (Some (Inr v)) f = f v"
  by (simp add: then_do_def)

lemma drains_map_stream:
  "drains (next_of this) i xs = Some i' \<Longrightarrow>
   drains (next_of (map_stream this f)) i (map f xs) = Some i'"
proof (induction xs arbitrary: i)
  case Nil
  then show ?case
    by (auto simp: next_of_def map_stream_def DONE_RESULT_def
             split: option.splits sum.splits if_splits prod.splits)
next
  case (Cons x xs)
  then show ?case
    by (auto simp: next_of_def map_stream_def split: option.splits sum.splits if_splits prod.splits)
qed

lemma map_stream_sel:
  "startFn (map_stream this f) = startFn this"
  "captured (map_stream this f) = captured this"
  by (simp_all add: map_stream_def)

lemma iterates_map_stream:
  "iterates this xs = Some i \<Longrightarrow> iterates (map_stream this f) (map f xs) = Some i"
  by (auto simp: iterates_eq map_stream_sel drains_map_stream split: option.splits sum.splits)

lemma defined_id: "Undefined \<notin> set xs \<Longrightarrow> defined xs = xs"
  by (induction xs) (auto simp: defined_def)

lemma defined_append: "defined (xs @ ys) = defined xs @ defined ys"
  by (simp add: defined_def)

lemma defined_final:
  "defined [Undefined] = []"
  "v \<noteq> Undefined \<Longrightarrow> defined [v] = [v]"
  by (simp_all add: defined_def)

lemma drains_Nil_iff:
  "drains next i [] = Some i' \<longleftrightarrow>
   (\<exists>r. next i = Some (Inr (r, i')) \<and> done r \<and> value r = Undefined)"
  by (auto split: option.splits sum.splits if_splits)

lemma drains_Cons_iff:
  "drains next i (x # xs) = Some i' \<longleftrightarrow>
   (\<exists>r i1. next i = Some (Inr (r, i1)) \<and> \<not> done r \<and> value r = x \<and> drains next i1 xs = Some i')"
  by (auto split: option.splits sum.splits if_splits)

lemma next_of_pair: "next_of S (s, e) = nextFn S s e"
  by (simp add: next_of_def)

section \<open>Lemmas on runs with any ending\<close>

lemma runs_Done_Nil_iff:
  "runs next i [] (Done v) \<longleftrightarrow> (\<exists>r i'. next i = Some (Inr (r, i')) \<and> done r \<and> value r = v)"
  by (auto split: option.splits sum.splits)

lemma runs_Throws_Nil_iff:
  "runs next i [] (Throws err) \<longleftrightarrow> next i = Some (Inl err)"
  by simp

lemma runs_Cons_iff:
  "runs next i (x # xs) ending \<longleftrightarrow>
   (\<exists>r i1. next i = Some (Inr (r, i1)) \<and> \<not> done r \<and> value r = x \<and> runs next i1 xs ending)"
  by (auto split: option.splits sum.splits)

lemma runs_cong_state: "next i = next j \<Longrightarrow> runs next i xs ending = runs next j xs ending"
  by (cases xs; cases ending) simp_all

lemma drains_runs: "drains next i xs = Some i' \<Longrightarrow> runs next i xs (Done Undefined)"
  by (induction xs arbitrary: i) (auto split: option.splits sum.splits if_splits)

lemma yields_eq:
  "yields this (xs, ending) =
     (case startFn this (captured this) of
        Some (Inr (state, e)) \<Rightarrow> runs (next_of this) (state, e) xs ending
      | Some (Inl err) \<Rightarrow> xs = [] \<and> ending = Throws err
      | None \<Rightarrow> False)"
  by (auto simp: yields_def iterator_def split: option.splits sum.splits)

lemma yields_Done:
  "yields this (xs, Done v) \<longleftrightarrow>
   (\<exists>state e. startFn this (captured this) = Some (Inr (state, e)) \<and>
      runs (next_of this) (state, e) xs (Done v))"
  by (auto simp: yields_eq split: option.splits sum.splits)

lemma iterates_yields: "iterates this xs = Some i \<Longrightarrow> yields this (xs, Done Undefined)"
  by (auto simp: iterates_eq yields_eq drains_runs split: option.splits sum.splits)

lemma runs_wrap:
  assumes "\<And>i. next' (w i) =
     (case next i of
        None \<Rightarrow> None
      | Some (Inl err) \<Rightarrow> Some (Inl err)
      | Some (Inr (r, i')) \<Rightarrow> Some (Inr (r, w i')))"
  shows "runs next' (w i) xs ending = runs next i xs ending"
proof (induction xs arbitrary: i)
  case Nil
  show ?case
    by (cases ending) (auto simp: assms split: option.splits sum.splits)
next
  case (Cons x xs)
  then show ?case
    by (auto simp: assms split: option.splits sum.splits)
qed

lemma toArray_loop_runs:
  "runs next i xs (Done v) \<Longrightarrow>
   \<exists>i'. toArray_loop next result i = Some (Inr (result @ defined (xs @ [v]), i'))"
proof (induction xs arbitrary: i result)
  case Nil
  then show ?case
    by (subst toArray_loop.simps)
       (auto simp: defined_def split: option.splits sum.splits if_splits)
next
  case (Cons x xs)
  from Cons.prems obtain r i1 where
    step: "next i = Some (Inr (r, i1))" "\<not> done r" "value r = x" and
    rest: "runs next i1 xs (Done v)"
    by (auto simp: runs_Cons_iff simp del: runs.simps)
  from Cons.IH [OF rest, of "if x \<noteq> Undefined then result @ [x] else result"]
  show ?case
    using step
    by (subst toArray_loop.simps) (auto simp: defined_def)
qed

lemma toArray_loop_throws:
  "runs next i xs (Throws err) \<Longrightarrow> toArray_loop next result i = Some (Inl err)"
proof (induction xs arbitrary: i result)
  case Nil
  then show ?case
    by (subst toArray_loop.simps) (simp add: runs_Throws_Nil_iff del: runs.simps)
next
  case (Cons x xs)
  from Cons.prems obtain r i1 where
    step: "next i = Some (Inr (r, i1))" "\<not> done r" "value r = x" and
    rest: "runs next i1 xs (Throws err)"
    by (auto simp: runs_Cons_iff simp del: runs.simps)
  show ?case
    using step Cons.IH [OF rest]
    by (subst toArray_loop.simps) simp
qed

lemma returned_toArray_yields:
  "yields this (xs, Done v) \<Longrightarrow> returned (toArray this) = Some (defined (xs @ [v]))"
proof -
  assume "yields this (xs, Done v)"
  then obtain it where it: "iterator this = Some (Inr it)"
    and r: "runs (inext it) (istate it) xs (Done v)"
    by (auto simp: yields_def split: option.splits sum.splits)
  from toArray_loop_runs [OF r, of "[]"] obtain i' where
    "toArray_loop (inext it) [] (istate it) = Some (Inr (defined (xs @ [v]), i'))"
    by auto
  then show ?thesis
    using it by (cases i') (simp add: toArray_def returned_def)
qed

lemma toArray_throws:
  "yields this (xs, Throws err) \<Longrightarrow> toArray this = Some (Inl err)"
  by (auto simp: yields_def toArray_def then_do_def toArray_loop_throws
           split: option.splits sum.splits)

lemma runs_HostIterator:
  "runs (next_of (iterable_stream collection)) (IteratorState (xs, r), e) xs (Done r)"
  by (induction xs) (auto simp: next_of_def iterable_stream_def)

lemma yields_iterable_stream:
  "Symbol_iterator collection = Inr (xs, r) \<Longrightarrow> yields (iterable_stream collection) (xs, Done r)"
  by (simp add: yields_eq startFn_iterable_stream runs_HostIterator)

lemma stream_Iterable:
  "stream (Iterable xs r) = Some (Inr (iterable_stream (Iterable xs r)))"
  by (simp add: stream_def)

lemma runs_map_stream:
  "runs (next_of this) i xs (Done v) \<Longrightarrow>
   runs (next_of (map_stream this f)) i (map f xs) (Done Undefined)"
proof (induction xs arbitrary: i)
  case Nil
  then show ?case
    by (auto simp: next_of_def map_stream_def DONE_RESULT_def
             split: option.splits sum.splits if_splits prod.splits)
next
  case (Cons x xs)
  then show ?case
    by (auto simp: next_of_def map_stream_def split: option.splits sum.splits if_splits prod.splits)
qed

lemma yields_map_stream:
  "yields this (xs, Done v) \<Longrightarrow> yields (map_stream this f) (map f xs, Done Undefined)"
  by (auto simp: yields_Done map_stream_sel runs_map_stream)

section \<open>concat\<close>

lemma concat_stream_Some:
  assumes "concat_stream S (Some (Inr it)) = Some (Inr C)"
  shows captured_concat: "captured C = (captured S, istate it)"
    and startFn_concat: "startFn C (e, i) =
      (case startFn S e of
         None \<Rightarrow> None
       | Some (Inl err) \<Rightarrow> Some (Inl err)
       | Some (Inr (s, e')) \<Rightarrow> Some (Inr (\<lparr>first = s, firstDone = False\<rparr>, (e', i))))"
    and next_of_concat: "next_of C (state :: 's ConcatState, (e, i)) =
      (if \<not> firstDone state then
         (case nextFn S (first state) e of
            None \<Rightarrow> None
          | Some (Inl err) \<Rightarrow> Some (Inl err)
          | Some (Inr (result, s', e')) \<Rightarrow>
              if \<not> done result then Some (Inr (result, state\<lparr>first := s'\<rparr>, (e', i)))
              else concat_other (inext it) (state\<lparr>first := s', firstDone := True\<rparr>) e' i)
       else concat_other (inext it) state e i)"
  using assms by (auto simp: concat_stream_def next_of_def)

lemma runs_concat_other:
  assumes C: "concat_stream S (Some (Inr it)) = Some (Inr C)"
    and fd: "firstDone state"
  shows "runs (inext it) i ys (Done w) \<Longrightarrow>
         runs (next_of C) (state, (e, i)) ys (Done Undefined)"
proof (induction ys arbitrary: i)
  case Nil
  then show ?case
    using next_of_concat [OF C] fd
    by (auto simp: concat_other_def DONE_RESULT_def split: option.splits sum.splits if_splits)
next
  case (Cons y ys)
  then show ?case
    using next_of_concat [OF C] fd
    by (auto simp: concat_other_def split: option.splits sum.splits if_splits)
qed

lemma runs_concat_first:
  assumes C: "concat_stream S (Some (Inr it)) = Some (Inr C)"
    and ys: "runs (inext it) i ys (Done w)"
  shows "runs (next_of S) (s, e) xs (Done v) \<Longrightarrow>
         runs (next_of C) (\<lparr>first = s, firstDone = False\<rparr>, (e, i)) (xs @ ys) (Done Undefined)"
proof (induction xs arbitrary: s e)
  case Nil
  from Nil.prems [unfolded runs_Done_Nil_iff next_of_pair] obtain r s' e' where
    r: "nextFn S s e = Some (Inr (r, s', e'))" "done r"
    by auto
  have "next_of C (\<lparr>first = s, firstDone = False\<rparr>, (e, i))
      = next_of C (\<lparr>first = s', firstDone = True\<rparr>, (e', i))"
    using r by (simp add: next_of_concat [OF C])
  then have "runs (next_of C) (\<lparr>first = s, firstDone = False\<rparr>, (e, i)) ys (Done Undefined)
      = runs (next_of C) (\<lparr>first = s', firstDone = True\<rparr>, (e', i)) ys (Done Undefined)"
    by (rule runs_cong_state)
  then show ?case
    using runs_concat_other [OF C _ ys, of "\<lparr>first = s', firstDone = True\<rparr>" e'] by simp
next
  case (Cons x xs)
  from Cons.prems [unfolded runs_Cons_iff next_of_pair] obtain r s1 e1 where
    r: "nextFn S s e = Some (Inr (r, s1, e1))" "\<not> done r" "value r = x" and
    rest: "runs (next_of S) (s1, e1) xs (Done v)"
    by auto
  have "next_of C (\<lparr>first = s, firstDone = False\<rparr>, (e, i))
      = Some (Inr (r, \<lparr>first = s1, firstDone = False\<rparr>, (e1, i)))"
    using r by (simp add: next_of_concat [OF C])
  then show ?case
    using r Cons.IH [OF rest] by simp
qed

lemma yields_concat:
  assumes S: "yields S (xs, Done v)"
    and T: "yields T (ys, Done w)"
  shows "\<exists>C. concat_stream S (iterator T) = Some (Inr C) \<and> yields C (xs @ ys, Done Undefined)"
proof -
  from T obtain it where it: "iterator T = Some (Inr it)"
    and ys: "runs (inext it) (istate it) ys (Done w)"
    by (auto simp: yields_def split: option.splits sum.splits)
  obtain C where C: "concat_stream S (Some (Inr it)) = Some (Inr C)"
    by (simp add: concat_stream_def)
  from S obtain s e where start: "startFn S (captured S) = Some (Inr (s, e))"
    and xs: "runs (next_of S) (s, e) xs (Done v)"
    by (auto simp: yields_Done)
  have "yields C (xs @ ys, Done Undefined)"
    using start runs_concat_first [OF C ys xs]
    by (simp add: yields_eq captured_concat [OF C] startFn_concat [OF C])
  then show ?thesis
    using C it by simp
qed

text \<open>
  Claim C5, as amended. Let \<open>S\<close> and \<open>T\<close> be finite streams that have captured no mutable
  object, so that no state is shared between their iterations or between the two of them;
  \<open>S\<close> yields \<open>xs\<close> and its final result carries \<open>v\<close>, \<open>T\<close> yields \<open>ys\<close> and its final
  result carries \<open>w\<close>. The freshly built \<^verbatim>\<open>S.concat(T)\<close> yields \<open>xs\<close> followed by \<open>ys\<close> and
  ends with \<^verbatim>\<open>{ done: true, value: undefined }\<close>, so its array is \<open>xs\<close> followed by \<open>ys\<close>
  without the entries that are \<^verbatim>\<open>undefined\<close>; \<^verbatim>\<open>S.toArray()\<close> and \<^verbatim>\<open>T.toArray()\<close> have \<open>v\<close>
  and \<open>w\<close> in the last place unless these are \<^verbatim>\<open>undefined\<close>. When \<open>v\<close> and \<open>w\<close> are
  \<^verbatim>\<open>undefined\<close>, \<^verbatim>\<open>S.concat(T).toArray()\<close> is \<^verbatim>\<open>S.toArray()\<close> followed by
  \<^verbatim>\<open>T.toArray()\<close>. The iterator of \<open>T\<close> is created when \<^verbatim>\<open>concat\<close> is called. From then
  on, as long as the first stream has not reported its end, a step of the concatenation
  that gets an element from the first stream returns that element and leaves the state
  \<open>i\<close> of the iterator of \<open>T\<close> as it was: \<^verbatim>\<open>next()\<close> of the second source is not called
  before the first is exhausted.
\<close>

theorem concat_toArray:
  fixes S :: "('s, 'e) StreamImpl" and T :: "('t, 'f) StreamImpl"
  assumes S: "yields S (xs, Done v)"
    and T: "yields T (ys, Done w)"
    and "captures_nothing S" and "captures_nothing T"
  shows "\<exists>C. concat_stream S (iterator T) = Some (Inr C) \<and>
           yields C (xs @ ys, Done Undefined) \<and>
           returned (toArray C) = Some (defined xs @ defined ys) \<and>
           returned (toArray S) = Some (defined xs @ defined [v]) \<and>
           returned (toArray T) = Some (defined ys @ defined [w]) \<and>
           (v = Undefined \<longrightarrow> w = Undefined \<longrightarrow>
              (\<exists>a b. returned (toArray S) = Some a \<and> returned (toArray T) = Some b \<and>
                 returned (toArray C) = Some (a @ b))) \<and>
           (\<forall>state e i r s1 e1.
              \<not> firstDone state \<longrightarrow> nextFn S (first state) e = Some (Inr (r, s1, e1)) \<longrightarrow> \<not> done r \<longrightarrow>
              nextFn C state (e, i) = Some (Inr (r, state\<lparr>first := s1\<rparr>, (e1, i))))"
proof -
  from yields_concat [OF S T] obtain C where
    C: "concat_stream S (iterator T) = Some (Inr C)" and
    f: "yields C (xs @ ys, Done Undefined)"
    by blast
  from C obtain it where it: "iterator T = Some (Inr it)"
    and C': "concat_stream S (Some (Inr it)) = Some (Inr C)"
    by (cases "iterator T") (auto simp: concat_stream_def then_do_def split: sum.splits)
  have c: "returned (toArray C) = Some (defined xs @ defined ys)"
    using returned_toArray_yields [OF f] by (simp add: defined_append defined_final)
  have s: "returned (toArray S) = Some (defined xs @ defined [v])"
    using returned_toArray_yields [OF S] by (simp add: defined_append)
  have t: "returned (toArray T) = Some (defined ys @ defined [w])"
    using returned_toArray_yields [OF T] by (simp add: defined_append)
  have step: "\<forall>state e i r s1 e1.
      \<not> firstDone state \<longrightarrow> nextFn S (first state) e = Some (Inr (r, s1, e1)) \<longrightarrow> \<not> done r \<longrightarrow>
      nextFn C state (e, i) = Some (Inr (r, state\<lparr>first := s1\<rparr>, (e1, i)))"
  proof (intro allI impI)
    fix state :: "'s ConcatState" and e i r s1 e1
    assume "\<not> firstDone state" "nextFn S (first state) e = Some (Inr (r, s1, e1))" "\<not> done r"
    then have "next_of C (state, (e, i)) = Some (Inr (r, state\<lparr>first := s1\<rparr>, (e1, i)))"
      by (simp add: next_of_concat [OF C'])
    then show "nextFn C state (e, i) = Some (Inr (r, state\<lparr>first := s1\<rparr>, (e1, i)))"
      by (simp add: next_of_def)
  qed
  have "v = Undefined \<longrightarrow> w = Undefined \<longrightarrow>
      (\<exists>a b. returned (toArray S) = Some a \<and> returned (toArray T) = Some b \<and>
         returned (toArray C) = Some (a @ b))"
    using c s t by (simp add: defined_final)
  with C f c s t step show ?thesis
    by blast
qed

text \<open>
  The amended claim C5 at \<^verbatim>\<open>stream([1]).concat(stream(new Set([2, 3])))\<close>.
\<close>

theorem concat_toArray_witness:
  "yields (iterable_stream (Arr [Num 1])) ([Num 1], Done Undefined) \<and>
   yields (iterable_stream (Iterable [Num 2, Num 3] Undefined)) ([Num 2, Num 3], Done Undefined) \<and>
   captures_nothing (iterable_stream (Arr [Num 1])) \<and>
   captures_nothing (iterable_stream (Iterable [Num 2, Num 3] Undefined)) \<and>
   returned (toArray (iterable_stream (Arr [Num 1]))) = Some [Num 1] \<and>
   returned (toArray (iterable_stream (Iterable [Num 2, Num 3] Undefined))) = Some [Num 2, Num 3] \<and>
   returned (then_do (concat_stream (iterable_stream (Arr [Num 1]))
                        (iterator (iterable_stream (Iterable [Num 2, Num 3] Undefined)))) toArray)
     = Some [Num 1, Num 2, Num 3]"
proof -
  let ?S = "iterable_stream (Arr [Num 1])"
  let ?T = "iterable_stream (Iterable [Num 2, Num 3] Undefined)"
  have S: "yields ?S ([Num 1], Done Undefined)"
    by (simp add: yields_iterable_stream)
  have T: "yields ?T ([Num 2, Num 3], Done Undefined)"
    by (simp add: yields_iterable_stream)
  have n: "captures_nothing ?S" "captures_nothing ?T"
    by (simp_all add: captures_nothing_def)
  from concat_toArray [OF S T n] obtain C where
    "concat_stream ?S (iterator ?T) = Some (Inr C)"
    "returned (toArray C) = Some (defined [Num 1] @ defined [Num 2, Num 3])"
    "returned (toArray ?S) = Some (defined [Num 1] @ defined [Undefined])"
    "returned (toArray ?T) = Some (defined [Num 2, Num 3] @ defined [Undefined])"
    by blast
  then show ?thesis
    using S T n by (simp add: defined_def)
qed

text \<open>
  Claim C5 as stated fails at a first stream whose final result carries a value, as the
  stream over an object whose iterator is made by the generator function
  \<^verbatim>\<open>function* () { yield 1; return 42; }\<close>: \<^verbatim>\<open>S.toArray()\<close> is \<^verbatim>\<open>[1, 42]\<close> and
  \<^verbatim>\<open>stream([2]).toArray()\<close> is \<^verbatim>\<open>[2]\<close>, while \<^verbatim>\<open>S.concat(stream([2])).toArray()\<close> is
  \<^verbatim>\<open>[1, 2]\<close>.
\<close>

theorem concat_toArray_counterexample:
  "stream (Iterable [Num 1] (Num 42)) = Some (Inr (iterable_stream (Iterable [Num 1] (Num 42)))) \<and>
   returned (toArray (iterable_stream (Iterable [Num 1] (Num 42)))) = Some [Num 1, Num 42] \<and>
   returned (toArray (iterable_stream (Arr [Num 2]))) = Some [Num 2] \<and>
   returned (then_do (concat_stream (iterable_stream (Iterable [Num 1] (Num 42)))
                        (iterator (iterable_stream (Arr [Num 2])))) toArray)
     = Some [Num 1, Num 2]"
proof -
  let ?S = "iterable_stream (Iterable [Num 1] (Num 42))"
  let ?T = "iterable_stream (Arr [Num 2])"
  have S: "yields ?S ([Num 1], Done (Num 42))"
    by (simp add: yields_iterable_stream)
  have T: "yields ?T ([Num 2], Done Undefined)"
    by (simp add: yields_iterable_stream)
  from yields_concat [OF S T] obtain C where
    C: "concat_stream ?S (iterator ?T) = Some (Inr C)" and
    f: "yields C ([Num 1] @ [Num 2], Done Undefined)"
    by blast
  show ?thesis
    using C returned_toArray_yields [OF f] returned_toArray_yields [OF S]
      returned_toArray_yields [OF T]
    by (simp add: stream_Iterable defined_def)
qed

section \<open>Iterating a stream twice\<close>

text \<open>
  Claim C1 does not hold of the code. The iterator of \<^verbatim>\<open>other\<close> (line 536) and the
  \<^verbatim>\<open>Set\<close> of \<^verbatim>\<open>distinct\<close> (line 814) are created once, when the stream is built, and not by
  \<^verbatim>\<open>startFn\<close>; every iteration of the stream uses them and leaves them changed. The first
  \<^verbatim>\<open>toArray()\<close> of \<^verbatim>\<open>stream([1]).concat([2])\<close> gives \<^verbatim>\<open>[1, 2]\<close> and the second gives
  \<^verbatim>\<open>[1]\<close>; the first \<^verbatim>\<open>toArray()\<close> of \<^verbatim>\<open>stream([1, 1, 2]).distinct()\<close> gives \<^verbatim>\<open>[1, 2]\<close> and
  the second gives \<^verbatim>\<open>[]\<close>.
\<close>

theorem second_iteration_differs:
  "stream (Arr [Num 1]) = Some (Inr (iterable_stream (Arr [Num 1]))) \<and>
   then_do (concat_stream (iterable_stream (Arr [Num 1])) (host_iterator (Arr [Num 2]))) toArray_twice
     = Some (Inr ([Num 1, Num 2], [Num 1])) \<and>
   stream (Arr [Num 1, Num 1, Num 2]) = Some (Inr (iterable_stream (Arr [Num 1, Num 1, Num 2]))) \<and>
   toArray_twice (distinct_stream (iterable_stream (Arr [Num 1, Num 1, Num 2])) None)
     = Some (Inr ([Num 1, Num 2], []))"
  by (simp add: toArray_twice_def then_do_def stream_def iterable_stream_def concat_stream_def
        host_iterator_def distinct_stream_def filter_stream_def toArray_def iterator_def next_of_def
        toArray_loop.simps filter_nextFn.simps concat_other_def DONE_RESULT_def Set_has_def)

section \<open>map and toArray\<close>

text \<open>
  Claim C6, as amended. \<^verbatim>\<open>toArray\<close> leaves out every \<^verbatim>\<open>undefined\<close> value, and it looks
  at the value of the final result as well. Let \<open>S\<close> be a finite stream that has captured
  no mutable object, so that no state is shared between its iterations, that yields \<open>xs\<close>
  and whose final result carries \<open>v\<close>. \<^verbatim>\<open>S.map(f)\<close> yields the function applied to each
  of \<open>xs\<close>, in the same order, and ends with \<^verbatim>\<open>{ done: true, value: undefined }\<close>, so
  \<^verbatim>\<open>S.map(f).toArray()\<close> is these values without the results that are \<^verbatim>\<open>undefined\<close>;
  \<^verbatim>\<open>S.toArray()\<close> is \<open>xs\<close> followed by \<open>v\<close>, without the entries that are \<^verbatim>\<open>undefined\<close>.
  When none of \<open>xs\<close> is \<^verbatim>\<open>undefined\<close>, the function returns \<^verbatim>\<open>undefined\<close> for none of them
  and \<open>v\<close> is \<^verbatim>\<open>undefined\<close>, \<^verbatim>\<open>S.map(f).toArray()\<close> is \<^verbatim>\<open>S.toArray()\<close> with the function
  applied to each element.
\<close>

theorem map_toArray:
  assumes "yields S (xs, Done v)" and "captures_nothing S"
  shows "yields (map_stream S callbackfn) (map callbackfn xs, Done Undefined) \<and>
         returned (toArray (map_stream S callbackfn)) = Some (defined (map callbackfn xs)) \<and>
         returned (toArray S) = Some (defined xs @ defined [v]) \<and>
         (Undefined \<notin> set xs \<longrightarrow> Undefined \<notin> callbackfn ` set xs \<longrightarrow> v = Undefined \<longrightarrow>
            returned (toArray (map_stream S callbackfn)) = Some (map callbackfn xs) \<and>
            returned (toArray S) = Some xs)"
proof -
  have y: "yields (map_stream S callbackfn) (map callbackfn xs, Done Undefined)"
    using assms(1) by (rule yields_map_stream)
  from returned_toArray_yields [OF this]
  have m: "returned (toArray (map_stream S callbackfn)) = Some (defined (map callbackfn xs))"
    by (simp add: defined_append defined_final)
  have s: "returned (toArray S) = Some (defined xs @ defined [v])"
    using returned_toArray_yields [OF assms(1)] by (simp add: defined_append)
  have "defined (map callbackfn xs) = map callbackfn xs" if "Undefined \<notin> callbackfn ` set xs"
    using that by (intro defined_id) simp
  then show ?thesis
    using y m s by (simp add: defined_id defined_final)
qed

text \<open>The amended claim C6 at \<^verbatim>\<open>stream([1, 2]).map(v => [v])\<close>.\<close>

theorem map_toArray_witness:
  "yields (iterable_stream (Arr [Num 1, Num 2])) ([Num 1, Num 2], Done Undefined) \<and>
   captures_nothing (iterable_stream (Arr [Num 1, Num 2])) \<and>
   Undefined \<notin> set [Num 1, Num 2] \<and>
   Undefined \<notin> singleton ` set [Num 1, Num 2] \<and>
   returned (toArray (map_stream (iterable_stream (Arr [Num 1, Num 2])) singleton))
     = Some [Arr [Num 1], Arr [Num 2]] \<and>
   returned (toArray (iterable_stream (Arr [Num 1, Num 2]))) = Some [Num 1, Num 2]"
proof -
  have S: "yields (iterable_stream (Arr [Num 1, Num 2])) ([Num 1, Num 2], Done Undefined)"
    by (simp add: yields_iterable_stream)
  have n: "captures_nothing (iterable_stream (Arr [Num 1, Num 2]))"
    by (simp add: captures_nothing_def)
  from map_toArray [OF S n, of singleton, THEN conjunct2, THEN conjunct2, THEN conjunct2]
  show ?thesis
    using S n by (simp add: singleton_def)
qed

text \<open>
  Claim C6 as stated fails at \<^verbatim>\<open>stream([1]).map(v => undefined)\<close>: the array of the mapped
  stream is empty, while \<^verbatim>\<open>S.toArray()\<close> is \<^verbatim>\<open>[1]\<close>, which is \<^verbatim>\<open>[undefined]\<close> with the
  function applied to each element. It also fails, with the identity as the function, at
  the stream over an object whose iterator is made by the generator function
  \<^verbatim>\<open>function* () { yield 1; return 42; }\<close>: \<^verbatim>\<open>S.toArray()\<close> is \<^verbatim>\<open>[1, 42]\<close> and
  \<^verbatim>\<open>S.map(v => v).toArray()\<close> is \<^verbatim>\<open>[1]\<close>.
\<close>

theorem map_toArray_counterexample:
  "stream (Arr [Num 1]) = Some (Inr (iterable_stream (Arr [Num 1]))) \<and>
   returned (toArray (map_stream (iterable_stream (Arr [Num 1])) to_undefined)) = Some [] \<and>
   returned (toArray (iterable_stream (Arr [Num 1]))) = Some [Num 1] \<and>
   map to_undefined [Num 1] = [Undefined] \<and>
   stream (Iterable [Num 1] (Num 42)) = Some (Inr (iterable_stream (Iterable [Num 1] (Num 42)))) \<and>
   returned (toArray (map_stream (iterable_stream (Iterable [Num 1] (Num 42))) (\<lambda>v. v))) = Some [Num 1] \<and>
   returned (toArray (iterable_stream (Iterable [Num 1] (Num 42)))) = Some [Num 1, Num 42]"
proof -
  have S: "yields (iterable_stream (Arr [Num 1])) ([Num 1], Done Undefined)"
    by (simp add: yields_iterable_stream)
  have G: "yields (iterable_stream (Iterable [Num 1] (Num 42))) ([Num 1], Done (Num 42))"
    by (simp add: yields_iterable_stream)
  show ?thesis
    using returned_toArray_yields [OF S] returned_toArray_yields [OF G]
      returned_toArray_yields [OF yields_map_stream [OF S, of to_undefined]]
      returned_toArray_yields [OF yields_map_stream [OF G, of "\<lambda>v. v"]]
    by (simp add: stream_Arr stream_Iterable defined_def to_undefined_def)
qed

section \<open>What reduce computes\<close>

lemma seeding_simps:
  "seeding callbackfn Undefined current = current"
  "previousValue \<noteq> Undefined \<Longrightarrow> seeding callbackfn previousValue current = callbackfn previousValue current"
  by (simp_all add: seeding_def)

lemma drains_next:
  "drains next i xs = Some i' \<Longrightarrow> \<exists>r i1. next i = Some (Inr (r, i1))"
  by (cases xs) (auto simp: drains_Nil_iff drains_Cons_iff simp del: drains.simps)

lemma reduce_loop_drains:
  "drains next i0 xs = Some i' \<Longrightarrow> next i0 = Some (Inr (r, i1)) \<Longrightarrow>
   reduce_loop next callbackfn previousValue r i1
     = Some (Inr (foldl (seeding callbackfn) previousValue xs, i'))"
proof (induction xs arbitrary: i0 r i1 previousValue)
  case Nil
  then show ?case
    by (subst reduce_loop.simps) (auto simp: drains_Nil_iff simp del: drains.simps)
next
  case (Cons x xs)
  from Cons.prems have r: "\<not> done r" "value r = x" and rest: "drains next i1 xs = Some i'"
    by (auto simp: drains_Cons_iff simp del: drains.simps)
  from drains_next [OF rest] obtain r2 i2 where n: "next i1 = Some (Inr (r2, i2))"
    by blast
  show ?case
    using r n Cons.IH [OF rest n]
    by (subst reduce_loop.simps) (simp add: seeding_def [symmetric])
qed

lemma reduce_iterates:
  assumes "iterates S xs = Some (s', e')"
  shows "reduce S callbackfn initialValue
           = Some (Inr (foldl (seeding callbackfn) initialValue xs, S\<lparr>captured := e'\<rparr>))"
proof -
  from assms obtain it where it: "iterator S = Some (Inr it)"
    and d: "drains (inext it) (istate it) xs = Some (s', e')"
    by (auto simp: iterates_def split: option.splits sum.splits)
  from drains_next [OF d] obtain r i1 where n: "inext it (istate it) = Some (Inr (r, i1))"
    by blast
  show ?thesis
    using it n reduce_loop_drains [OF d n]
    by (simp add: reduce_def)
qed

lemma foldl_seeding:
  "Undefined \<notin> set (accumulators callbackfn acc xs) \<Longrightarrow>
   foldl (seeding callbackfn) acc xs = foldl callbackfn acc xs"
  by (induction xs arbitrary: acc) (auto simp: seeding_def)

lemma foldl_seeding_contract:
  "no_undefined_accumulator combine initial visited \<Longrightarrow>
   foldl (seeding combine) (undefined_if_absent initial) visited
     = undefined_if_absent (reduce_contract combine initial visited)"
proof (cases initial)
  case None
  assume "no_undefined_accumulator combine initial visited"
  with None show ?thesis
    by (cases visited)
       (auto simp: no_undefined_accumulator_def seed_and_rest_def reduce_contract_def
          undefined_if_absent_def foldl_seeding seeding_def)
next
  case (Some init)
  assume "no_undefined_accumulator combine initial visited"
  with Some show ?thesis
    by (auto simp: no_undefined_accumulator_def seed_and_rest_def reduce_contract_def
          undefined_if_absent_def foldl_seeding)
qed

section \<open>reduce\<close>

text \<open>
  Claim C2, as amended. \<^verbatim>\<open>reduce\<close> without an initial value on an empty stream returns
  \<^verbatim>\<open>undefined\<close>, which is also what it returns on a stream whose only element is
  \<^verbatim>\<open>undefined\<close>; with the initial value 0 on an empty stream it returns 0. On a non-empty
  stream without an initial value, when neither the first element nor any intermediate
  accumulator value is \<^verbatim>\<open>undefined\<close>, the first element seeds the accumulator and the
  remaining elements are folded into it from left to right.
\<close>

theorem reduce_seeds_and_folds:
  assumes "iterates S xs = Some i"
  shows "(xs = [] \<longrightarrow> returned (reduce S callbackfn Undefined) = Some Undefined \<and>
                     returned (reduce S callbackfn (Num 0)) = Some (Num 0)) \<and>
         (xs = [Undefined] \<longrightarrow> returned (reduce S callbackfn Undefined) = Some Undefined) \<and>
         (\<forall>x rest. xs = x # rest \<longrightarrow> Undefined \<notin> set (accumulators callbackfn x rest) \<longrightarrow>
            returned (reduce S callbackfn Undefined) = Some (foldl callbackfn x rest))"
proof -
  obtain s' e' where i: "i = (s', e')" by (cases i)
  have r: "returned (reduce S callbackfn initialValue)
      = Some (foldl (seeding callbackfn) initialValue xs)" for initialValue
    using assms unfolding i by (simp add: reduce_iterates returned_def)
  show ?thesis
    by (auto simp: r seeding_def foldl_seeding)
qed

text \<open>
  The amended claim C2 at \<^verbatim>\<open>stream([])\<close> and at \<^verbatim>\<open>stream([1, 2, 3])\<close> with the callback
  \<^verbatim>\<open>(a, b) => [a, b]\<close>.
\<close>

theorem reduce_seeds_and_folds_witness:
  "iterates (iterable_stream (Arr [])) [] = Some (IteratorState ([], Undefined), ()) \<and>
   returned (reduce (iterable_stream (Arr [])) pair Undefined) = Some Undefined \<and>
   returned (reduce (iterable_stream (Arr [])) pair (Num 0)) = Some (Num 0) \<and>
   iterates (iterable_stream (Arr [Num 1, Num 2, Num 3])) [Num 1, Num 2, Num 3]
     = Some (IteratorState ([], Undefined), ()) \<and>
   Undefined \<notin> set (accumulators pair (Num 1) [Num 2, Num 3]) \<and>
   returned (reduce (iterable_stream (Arr [Num 1, Num 2, Num 3])) pair Undefined)
     = Some (Arr [Arr [Num 1, Num 2], Num 3])"
  using reduce_seeds_and_folds [OF iterates_iterable_stream, of "[]" pair]
    reduce_seeds_and_folds [OF iterates_iterable_stream, of "[Num 1, Num 2, Num 3]" pair]
  by (simp add: iterates_iterable_stream pair_def)

text \<open>
  Claim C2 as stated fails. Without an initial value, \<^verbatim>\<open>reduce\<close> returns \<^verbatim>\<open>undefined\<close> both
  on the empty stream and on \<^verbatim>\<open>stream([undefined])\<close>, so "no result" is not distinct from
  every element value. On \<^verbatim>\<open>stream([undefined, 1, 2])\<close> the first element does not seed the
  fold: the result is \<^verbatim>\<open>[1, 2]\<close> and not \<^verbatim>\<open>[[undefined, 1], 2]\<close>.
\<close>

theorem reduce_no_result_counterexample:
  "returned (reduce (iterable_stream (Arr [])) pair Undefined) = Some Undefined \<and>
   returned (reduce (iterable_stream (Arr [Undefined])) pair Undefined) = Some Undefined \<and>
   returned (reduce (iterable_stream (Arr [Undefined, Num 1, Num 2])) pair Undefined)
     = Some (Arr [Num 1, Num 2]) \<and>
   foldl pair Undefined [Num 1, Num 2] = Arr [Arr [Undefined, Num 1], Num 2] \<and>
   stream (Arr [Undefined, Num 1, Num 2])
     = Some (Inr (iterable_stream (Arr [Undefined, Num 1, Num 2])))"
  by (simp add: stream_Arr reduce_iterates [OF iterates_iterable_stream] returned_def seeding_def
        pair_def)

section \<open>reduceRight\<close>

lemma recursiveReduce_runs:
  "runs next i xs (Done v) \<Longrightarrow> length xs \<le> frames \<Longrightarrow>
   \<exists>i'. recursiveReduce frames next callbackfn initialValue i
          = Some (Inr (foldl (seeding callbackfn) initialValue (rev xs), i'))"
proof (induction xs arbitrary: i frames)
  case Nil
  then show ?case
    by (subst recursiveReduce.simps) (auto simp: runs_Done_Nil_iff simp del: runs.simps)
next
  case (Cons x xs)
  from Cons.prems(2) obtain k where k: "frames = Suc k" and len: "length xs \<le> k"
    by (cases frames) auto
  from Cons.prems(1) obtain r i1 where
    r: "next i = Some (Inr (r, i1))" "\<not> done r" "value r = x" and
    rest: "runs next i1 xs (Done v)"
    by (auto simp: runs_Cons_iff simp del: runs.simps)
  from Cons.IH [OF rest len] obtain i' where
    "recursiveReduce k next callbackfn initialValue i1
       = Some (Inr (foldl (seeding callbackfn) initialValue (rev xs), i'))"
    by blast
  then show ?case
    using r unfolding k
    by (subst recursiveReduce.simps) (simp add: seeding_def [symmetric] seeding_simps)
qed

lemma recursiveReduce_RangeError:
  "runs next i xs ending \<Longrightarrow> frames < length xs \<Longrightarrow>
   recursiveReduce frames next callbackfn initialValue i = Some (Inl RangeError)"
proof (induction xs arbitrary: i frames)
  case Nil
  then show ?case
    by simp
next
  case (Cons x xs)
  from Cons.prems(1) obtain r i1 where
    r: "next i = Some (Inr (r, i1))" "\<not> done r" and
    rest: "runs next i1 xs ending"
    by (auto simp: runs_Cons_iff simp del: runs.simps)
  show ?case
  proof (cases frames)
    case 0
    then show ?thesis
      using r by (subst recursiveReduce.simps) simp
  next
    case (Suc k)
    with Cons.prems(2) have len: "k < length xs"
      by simp
    show ?thesis
      using r Cons.IH [OF rest len] unfolding Suc
      by (subst recursiveReduce.simps) simp
  qed
qed

lemma reduceRight_yields:
  assumes "yields S (xs, Done v)" and "length xs \<le> frames"
  shows "returned (reduceRight frames S callbackfn initialValue)
           = Some (foldl (seeding callbackfn) initialValue (rev xs))"
proof -
  from assms(1) obtain it where it: "iterator S = Some (Inr it)"
    and r: "runs (inext it) (istate it) xs (Done v)"
    by (auto simp: yields_def split: option.splits sum.splits)
  from recursiveReduce_runs [OF r assms(2)] obtain i' where
    "recursiveReduce frames (inext it) callbackfn initialValue (istate it)
       = Some (Inr (foldl (seeding callbackfn) initialValue (rev xs), i'))"
    by blast
  then show ?thesis
    using it by (cases i') (simp add: reduceRight_def returned_def)
qed

lemma reduceRight_RangeError:
  assumes "yields S (xs, Done v)" and "frames < length xs"
  shows "reduceRight frames S callbackfn initialValue = Some (Inl RangeError)"
proof -
  from assms(1) obtain it where it: "iterator S = Some (Inr it)"
    and r: "runs (inext it) (istate it) xs (Done v)"
    by (auto simp: yields_def split: option.splits sum.splits)
  show ?thesis
    using it recursiveReduce_RangeError [OF r assms(2)]
    by (simp add: reduceRight_def then_do_def)
qed

lemma reduceRight_buffered_nonempty:
  "buffer \<noteq> [] \<or> initial \<noteq> None \<Longrightarrow> reduceRight_buffered combine initial buffer \<noteq> None"
  by (cases initial; cases "rev buffer")
     (auto simp: reduceRight_buffered_def reduce_contract_def seed_and_rest_def)

text \<open>
  Claim C7, as amended. Let the stream be finite with the elements \<open>xs\<close>. When the call
  stack has room for one nested call of \<^verbatim>\<open>recursiveReduce\<close> for each of them, then for
  every combine function and initial value the recursive \<^verbatim>\<open>reduceRight\<close> returns, and it
  returns what the loop of \<^verbatim>\<open>reduce\<close> returns on the buffered and reversed elements; when
  no accumulator value of the reference fold is \<^verbatim>\<open>undefined\<close>, this is the result of the
  reference strategy \<open>reduceRight_buffered\<close>. The theorem also states what happens when
  the stack has room for fewer nested calls: \<^verbatim>\<open>reduceRight\<close> throws a \<^verbatim>\<open>RangeError\<close>.
\<close>

theorem reduceRight_buffered_equivalent:
  assumes "yields S (xs, Done v)"
  shows "(length xs \<le> frames \<longrightarrow>
            returned (reduceRight frames S combine initialValue)
              = returned (reduce (iterable_stream (Arr (rev xs))) combine initialValue) \<and>
            returned (reduceRight frames S combine initialValue) \<noteq> None \<and>
            (no_undefined_accumulator combine initial (rev xs) \<longrightarrow>
               returned (reduceRight frames S combine (undefined_if_absent initial))
                 = Some (undefined_if_absent (reduceRight_buffered combine initial xs)))) \<and>
         (frames < length xs \<longrightarrow>
            reduceRight frames S combine initialValue = Some (Inl RangeError))"
proof -
  have r: "returned (reduceRight frames S combine w) = Some (foldl (seeding combine) w (rev xs))"
    if "length xs \<le> frames" for w
    using assms that by (rule reduceRight_yields)
  have "returned (reduce (iterable_stream (Arr (rev xs))) combine initialValue)
      = Some (foldl (seeding combine) initialValue (rev xs))"
    by (simp add: reduce_iterates [OF iterates_iterable_stream] returned_def)
  then show ?thesis
    using reduceRight_RangeError [OF assms, of frames combine initialValue]
    by (simp add: r reduceRight_buffered_def foldl_seeding_contract)
qed

text \<open>
  The amended claim C7 at \<^verbatim>\<open>stream([1, 2, 3])\<close> with the callback \<^verbatim>\<open>(a, b) => [a, b]\<close>:
  with a call stack that has room for 10000 nested calls, and with one that has room for
  two.
\<close>

theorem reduceRight_buffered_equivalent_witness:
  "yields (iterable_stream (Arr [Num 1, Num 2, Num 3])) ([Num 1, Num 2, Num 3], Done Undefined) \<and>
   length [Num 1, Num 2, Num 3] \<le> (10000 :: nat) \<and>
   no_undefined_accumulator pair None (rev [Num 1, Num 2, Num 3]) \<and>
   returned (reduceRight 10000 (iterable_stream (Arr [Num 1, Num 2, Num 3])) pair Undefined)
     = Some (Arr [Arr [Num 3, Num 2], Num 1]) \<and>
   reduceRight_buffered pair None [Num 1, Num 2, Num 3]
     = Some (Arr [Arr [Num 3, Num 2], Num 1]) \<and>
   (2 :: nat) < length [Num 1, Num 2, Num 3] \<and>
   reduceRight 2 (iterable_stream (Arr [Num 1, Num 2, Num 3])) pair Undefined = Some (Inl RangeError)"
proof -
  have S: "yields (iterable_stream (Arr [Num 1, Num 2, Num 3])) ([Num 1, Num 2, Num 3], Done Undefined)"
    by (simp add: yields_iterable_stream)
  have l: "length [Num 1, Num 2, Num 3] \<le> (10000 :: nat)"
    by simp
  from reduceRight_buffered_equivalent [OF S, of 10000 pair Undefined None,
      THEN conjunct1, THEN mp, OF l, THEN conjunct2, THEN conjunct2]
  have a: "returned (reduceRight 10000 (iterable_stream (Arr [Num 1, Num 2, Num 3])) pair Undefined)
      = Some (Arr [Arr [Num 3, Num 2], Num 1])"
    by (simp add: no_undefined_accumulator_def seed_and_rest_def
          undefined_if_absent_def reduceRight_buffered_def reduce_contract_def pair_def)
  from reduceRight_buffered_equivalent [OF S, of 2 pair Undefined None, THEN conjunct2]
  have b: "reduceRight 2 (iterable_stream (Arr [Num 1, Num 2, Num 3])) pair Undefined
      = Some (Inl RangeError)"
    by simp
  show ?thesis
    using S a b
    by (simp add: no_undefined_accumulator_def seed_and_rest_def
          reduceRight_buffered_def reduce_contract_def pair_def)
qed

text \<open>
  Claim C7 as stated fails in two ways. At \<^verbatim>\<open>stream([1, undefined])\<close> without an initial
  value the recursion returns \<^verbatim>\<open>1\<close>, while the reference strategy seeds the fold with the
  last element, \<^verbatim>\<open>undefined\<close>, and returns \<^verbatim>\<open>[undefined, 1]\<close>. At a stream that has more
  elements than the call stack has room for nested calls (here 10001 elements and room
  for 10000 calls) the recursion throws a \<^verbatim>\<open>RangeError\<close>, while the reference strategy,
  which is a loop, returns a result.
\<close>

theorem reduceRight_buffered_counterexample:
  "stream (Arr [Num 1, Undefined]) = Some (Inr (iterable_stream (Arr [Num 1, Undefined]))) \<and>
   returned (reduceRight 10000 (iterable_stream (Arr [Num 1, Undefined])) pair (undefined_if_absent None))
     = Some (Num 1) \<and>
   reduceRight_buffered pair None [Num 1, Undefined] = Some (Arr [Undefined, Num 1]) \<and>
   stream (Arr (replicate 10001 (Num 1)))
     = Some (Inr (iterable_stream (Arr (replicate 10001 (Num 1))))) \<and>
   reduceRight 10000 (iterable_stream (Arr (replicate 10001 (Num 1)))) pair (undefined_if_absent None)
     = Some (Inl RangeError) \<and>
   reduceRight_buffered pair None (replicate 10001 (Num 1)) \<noteq> None"
proof -
  have S: "yields (iterable_stream (Arr [Num 1, Undefined])) ([Num 1, Undefined], Done Undefined)"
    by (simp add: yields_iterable_stream)
  have a: "returned (reduceRight 10000 (iterable_stream (Arr [Num 1, Undefined])) pair
             (undefined_if_absent None)) = Some (Num 1)"
    using reduceRight_yields [OF S, of 10000 pair "undefined_if_absent None"]
    by (simp add: seeding_def undefined_if_absent_def)
  have b: "reduceRight_buffered pair None [Num 1, Undefined] = Some (Arr [Undefined, Num 1])"
    by (simp add: reduceRight_buffered_def reduce_contract_def seed_and_rest_def pair_def)
  have L: "yields (iterable_stream (Arr (replicate 10001 (Num 1))))
             (replicate 10001 (Num 1), Done Undefined)"
    by (simp add: yields_iterable_stream)
  have c: "reduceRight 10000 (iterable_stream (Arr (replicate 10001 (Num 1)))) pair
             (undefined_if_absent None) = Some (Inl RangeError)"
    using L by (rule reduceRight_RangeError) simp
  have d: "reduceRight_buffered pair None (replicate 10001 (Num 1)) \<noteq> None"
    by (rule reduceRight_buffered_nonempty) simp
  show ?thesis
    using a b c d by (simp add: stream_Arr)
qed

section \<open>tail\<close>

lemma tail_sel:
  "nextFn (tail S skipCount) = nextFn S"
  "captured (tail S skipCount) = captured S"
  "startFn (tail S skipCount) e =
     (case startFn S e of
        None \<Rightarrow> None
      | Some (Inl err) \<Rightarrow> Some (Inl err)
      | Some (Inr (state, e')) \<Rightarrow> tail_skip (nextFn S) skipCount 0 state e')"
  by (simp_all add: tail_def)

lemma next_of_tail: "next_of (tail S skipCount) = next_of S"
  by (rule ext) (simp add: next_of_def tail_sel)

lemma tail_skip_drains:
  "drains (next_of S) (s, e) xs = Some fin \<Longrightarrow>
   \<exists>s1 e1. tail_skip (nextFn S) skipCount i s e = Some (Inr (s1, e1)) \<and>
     (if nat (skipCount - i) \<le> length xs
      then drains (next_of S) (s1, e1) (drop (nat (skipCount - i)) xs) = Some fin
      else (s1, e1) = fin)"
proof (induction xs arbitrary: s e i)
  case Nil
  obtain s' e' where fin: "fin = (s', e')"
    by (cases fin)
  from Nil.prems [unfolded drains_Nil_iff next_of_pair fin] obtain r where
    r: "nextFn S s e = Some (Inr (r, s', e'))" "done r"
    by blast
  show ?case
  proof (cases "i < skipCount")
    case True
    then show ?thesis
      using r fin by (subst tail_skip.simps) simp
  next
    case False
    then show ?thesis
      using Nil.prems by (subst tail_skip.simps) simp
  qed
next
  case (Cons x xs)
  from Cons.prems [unfolded drains_Cons_iff next_of_pair] obtain r s1 e1 where
    r: "nextFn S s e = Some (Inr (r, s1, e1))" "\<not> done r" and
    rest: "drains (next_of S) (s1, e1) xs = Some fin"
    by auto
  show ?case
  proof (cases "i < skipCount")
    case True
    from Cons.IH [OF rest, of "i + 1"] obtain s2 e2 where
      t: "tail_skip (nextFn S) skipCount (i + 1) s1 e1 = Some (Inr (s2, e2))" and
      d: "if nat (skipCount - (i + 1)) \<le> length xs
          then drains (next_of S) (s2, e2) (drop (nat (skipCount - (i + 1))) xs) = Some fin
          else (s2, e2) = fin"
      by blast
    from True have n: "nat (skipCount - i) = Suc (nat (skipCount - (i + 1)))"
      by simp
    have "tail_skip (nextFn S) skipCount i s e = Some (Inr (s2, e2))"
      using True r t by (subst tail_skip.simps) simp
    then show ?thesis
      using d by (auto simp: n split: if_splits)
  next
    case False
    then show ?thesis
      using Cons.prems by (subst tail_skip.simps) simp
  qed
qed

lemma iterates_tail:
  assumes "iterates S xs = Some fin"
    and "int (length xs) < skipCount \<longrightarrow> drains (next_of S) fin [] \<noteq> None"
  shows "\<exists>fin'. iterates (tail S skipCount) (drop (nat skipCount) xs) = Some fin'"
proof -
  from assms(1) obtain s e where start: "startFn S (captured S) = Some (Inr (s, e))"
    and xs: "drains (next_of S) (s, e) xs = Some fin"
    by (auto simp: iterates_eq split: option.splits sum.splits)
  from tail_skip_drains [OF xs, of skipCount 0] obtain s1 e1 where
    t: "tail_skip (nextFn S) skipCount 0 s e = Some (Inr (s1, e1))" and
    d0: "if nat (skipCount - 0) \<le> length xs
        then drains (next_of S) (s1, e1) (drop (nat (skipCount - 0)) xs) = Some fin
        else (s1, e1) = fin"
    by blast
  from d0 have d: "if nat skipCount \<le> length xs
        then drains (next_of S) (s1, e1) (drop (nat skipCount) xs) = Some fin
        else (s1, e1) = fin"
    by (simp split: if_splits)
  have it: "iterates (tail S skipCount) ys = drains (next_of S) (s1, e1) ys" for ys
    using start t by (simp add: iterates_eq tail_sel next_of_tail)
  have "iterates (tail S skipCount) (drop (nat skipCount) xs) \<noteq> None"
  proof (cases "nat skipCount \<le> length xs")
    case True
    then show ?thesis using d by (simp add: it)
  next
    case False
    then have "int (length xs) < skipCount" by simp
    with assms(2) have "drains (next_of S) fin [] \<noteq> None" by simp
    with False d show ?thesis by (simp add: it del: drains.simps)
  qed
  then show ?thesis by blast
qed

text \<open>
  Claim C9. Let \<open>S\<close> be a finite stream that yields \<open>xs\<close> and, in case it has fewer than
  \<^verbatim>\<open>skipCount\<close> elements, reports its end again when it is asked once more after its end.
  Then \<^verbatim>\<open>S.tail(skipCount)\<close> is a finite stream that yields \<open>xs\<close> without its first
  \<^verbatim>\<open>skipCount\<close> elements, in order, which is nothing when \<open>xs\<close> has fewer elements; no call
  throws. \<^verbatim>\<open>tail(5)\<close> of a stream of three elements is empty.
\<close>

theorem tail_skips:
  assumes "iterates S xs = Some fin"
    and "int (length xs) < skipCount \<longrightarrow> drains (next_of S) fin [] \<noteq> None"
  shows "iterates (tail S skipCount) (drop (nat skipCount) xs) \<noteq> None \<and>
         returned (toArray (tail S skipCount)) = Some (defined (drop (nat skipCount) xs)) \<and>
         returned (then_do (stream (Arr [Num 1, Num 2, Num 3])) (\<lambda>s. toArray (tail s 5))) = Some []"
proof -
  from iterates_tail [OF assms] obtain fin' where
    f: "iterates (tail S skipCount) (drop (nat skipCount) xs) = Some fin'"
    by blast
  have "drains (next_of (iterable_stream (Arr [Num 1, Num 2, Num 3]))) (IteratorState ([], Undefined), ()) [] \<noteq> None"
    using drains_HostIterator [of "Arr [Num 1, Num 2, Num 3]" "[]" "()"]
    by (simp del: drains.simps)
  with iterates_tail [OF iterates_iterable_stream, of "[Num 1, Num 2, Num 3]" 5] obtain fin5 where
    "iterates (tail (iterable_stream (Arr [Num 1, Num 2, Num 3])) 5) [] = Some fin5"
    by auto
  from returned_toArray [OF this]
  have ex: "returned (then_do (stream (Arr [Num 1, Num 2, Num 3])) (\<lambda>s. toArray (tail s 5))) = Some []"
    by (simp add: stream_Arr defined_def)
  show ?thesis
    using f returned_toArray [OF f] ex by simp
qed

text \<open>Claim C9 at \<^verbatim>\<open>stream([1, 2, 3])\<close> with \<^verbatim>\<open>tail(5)\<close> and \<^verbatim>\<open>tail(2)\<close>.\<close>

theorem tail_skips_witness:
  "iterates (iterable_stream (Arr [Num 1, Num 2, Num 3])) [Num 1, Num 2, Num 3]
     = Some (IteratorState ([], Undefined), ()) \<and>
   drains (next_of (iterable_stream (Arr [Num 1, Num 2, Num 3]))) (IteratorState ([], Undefined), ()) [] \<noteq> None \<and>
   iterates (tail (iterable_stream (Arr [Num 1, Num 2, Num 3])) 5) [] \<noteq> None \<and>
   returned (toArray (tail (iterable_stream (Arr [Num 1, Num 2, Num 3])) 2)) = Some [Num 3]"
  using tail_skips [OF iterates_iterable_stream, of "[Num 1, Num 2, Num 3]" 5]
    tail_skips [OF iterates_iterable_stream, of "[Num 1, Num 2, Num 3]" 2]
    drains_HostIterator [of "Arr [Num 1, Num 2, Num 3]" "[]" "()"]
  by (simp add: iterates_iterable_stream defined_def del: drains.simps)

section \<open>flatMap and flat\<close>

lemma drains_cong_state: "next i = next j \<Longrightarrow> drains next i xs = drains next j xs"
  by (cases xs) simp_all

lemma isIterable_cases:
  "isIterable v = Inl err \<longleftrightarrow> (v = Undefined \<or> v = Null) \<and> err = TypeError"
  "isIterable v = Inr True \<Longrightarrow> \<exists>r. Symbol_iterator v = Inr (expand v, r)"
  "isIterable v = Inr False \<Longrightarrow> expand v = [v]"
  by (cases v; cases err; simp)+

lemma flatMap_sel:
  "nextFn (flatMap S f) = flatMap_loop (nextFn S) f"
  "captured (flatMap S f) = captured S"
  "startFn (flatMap S f) e =
     (case startFn S e of
        None \<Rightarrow> None
      | Some (Inl err) \<Rightarrow> Some (Inl err)
      | Some (Inr (s, e')) \<Rightarrow> Some (Inr (FlatMapState s None, e')))"
  by (simp_all add: flatMap_def)

lemma flatMap_loop_inner:
  "flatMap_loop nS f (FlatMapState s (Some (y # ys, r))) e
     = Some (Inr (\<lparr>done = False, value = y\<rparr>, FlatMapState s (Some (ys, r)), e))"
  "flatMap_loop nS f (FlatMapState s (Some ([], r))) e = flatMap_loop nS f (FlatMapState s None) e"
  by (subst flatMap_loop.simps, simp)+

lemma flatMap_loop_throws:
  "nS s e = Some (Inl err) \<Longrightarrow> flatMap_loop nS f (FlatMapState s None) e = Some (Inl err)"
  by (subst flatMap_loop.simps) simp

lemma flatMap_loop_outer:
  assumes "nS s e = Some (Inr (r, s1, e1))"
  shows "done r \<Longrightarrow>
           flatMap_loop nS f (FlatMapState s None) e = Some (Inr (DONE_RESULT, FlatMapState s1 None, e1))"
    and "\<not> done r \<Longrightarrow> isIterable (f (value r)) = Inr False \<Longrightarrow>
           flatMap_loop nS f (FlatMapState s None) e
             = Some (Inr (\<lparr>done = False, value = f (value r)\<rparr>, FlatMapState s1 None, e1))"
    and "\<not> done r \<Longrightarrow> Symbol_iterator (f (value r)) = Inr it \<Longrightarrow> isIterable (f (value r)) = Inr True \<Longrightarrow>
           flatMap_loop nS f (FlatMapState s None) e
             = flatMap_loop nS f (FlatMapState s1 (Some it)) e1"
    and "\<not> done r \<Longrightarrow> isIterable (f (value r)) = Inl err \<Longrightarrow>
           flatMap_loop nS f (FlatMapState s None) e = Some (Inl err)"
  using assms by (subst flatMap_loop.simps, simp)+

lemma runs_flatMap_inner:
  "runs (next_of (flatMap S f)) (FlatMapState s (Some (ys, r)), e) (ys @ rest) ending
     = runs (next_of (flatMap S f)) (FlatMapState s None, e) rest ending"
proof (induction ys)
  case Nil
  show ?case
    by (simp add: runs_cong_state next_of_pair flatMap_sel flatMap_loop_inner)
next
  case (Cons y ys)
  then show ?case
    by (simp add: next_of_pair flatMap_sel flatMap_loop_inner)
qed

lemma runs_flatMap:
  "runs (next_of S) (s, e) xs ending \<Longrightarrow>
   runs (next_of (flatMap S f)) (FlatMapState s None, e)
     (fst (flatMapped f (xs, ending))) (snd (flatMapped f (xs, ending)))"
proof (induction xs arbitrary: s e)
  case Nil
  show ?case
  proof (cases ending)
    case (Done v)
    with Nil.prems obtain r s' e' where
      r: "nextFn S s e = Some (Inr (r, s', e'))" "done r"
      by (auto simp: runs_Done_Nil_iff next_of_pair simp del: runs.simps)
    show ?thesis
      by (simp add: Done next_of_pair flatMap_sel
            flatMap_loop_outer(1) [where nS = "nextFn S", OF r] DONE_RESULT_def)
  next
    case (Throws err)
    with Nil.prems have "nextFn S s e = Some (Inl err)"
      by (simp add: runs_Throws_Nil_iff next_of_pair del: runs.simps)
    then show ?thesis
      by (simp add: Throws next_of_pair flatMap_sel flatMap_loop_throws)
  next
    case Unfinished
    then show ?thesis
      by simp
  qed
next
  case (Cons x xs)
  from Cons.prems [unfolded runs_Cons_iff next_of_pair] obtain r s1 e1 where
    r: "nextFn S s e = Some (Inr (r, s1, e1))" and nd: "\<not> done r" and v: "value r = x" and
    rest: "runs (next_of S) (s1, e1) xs ending"
    by auto
  note IH = Cons.IH [OF rest]
  show ?case
  proof (cases "isIterable (f x)")
    case (Inl err)
    then have bad: "f x = Undefined \<or> f x = Null" and err: "err = TypeError"
      by (simp_all add: isIterable_cases(1))
    have "next_of (flatMap S f) (FlatMapState s None, e) = Some (Inl TypeError)"
      using flatMap_loop_outer(4) [where nS = "nextFn S" and f = f, OF r nd] Inl v err
      by (simp add: next_of_pair flatMap_sel)
    then show ?thesis
      using bad by auto
  next
    case (Inr b)
    then have ok: "\<not> (f x = Undefined \<or> f x = Null)"
      using isIterable_cases(1) [of "f x" TypeError] by auto
    obtain ys ending' where fm: "flatMapped f (xs, ending) = (ys, ending')"
      by (cases "flatMapped f (xs, ending)")
    from IH have IH': "runs (next_of (flatMap S f)) (FlatMapState s1 None, e1) ys ending'"
      by (simp add: fm)
    show ?thesis
    proof (cases b)
      case True
      with Inr obtain r0 where it: "Symbol_iterator (f x) = Inr (expand (f x), r0)"
        using isIterable_cases(2) [of "f x"] by auto
      have "next_of (flatMap S f) (FlatMapState s None, e)
          = next_of (flatMap S f) (FlatMapState s1 (Some (expand (f x), r0)), e1)"
        using flatMap_loop_outer(3) [where nS = "nextFn S" and f = f, OF r nd] it Inr True v
        by (simp add: next_of_pair flatMap_sel)
      then have "runs (next_of (flatMap S f)) (FlatMapState s None, e) (expand (f x) @ ys) ending'
          = runs (next_of (flatMap S f)) (FlatMapState s1 (Some (expand (f x), r0)), e1)
              (expand (f x) @ ys) ending'"
        by (rule runs_cong_state)
      then show ?thesis
        using IH' ok by (simp add: fm runs_flatMap_inner del: runs.simps)
    next
      case False
      have "next_of (flatMap S f) (FlatMapState s None, e)
          = Some (Inr (\<lparr>done = False, value = f x\<rparr>, FlatMapState s1 None, e1))"
        using flatMap_loop_outer(2) [where nS = "nextFn S" and f = f, OF r nd] Inr False v
        by (simp add: next_of_pair flatMap_sel)
      moreover have "expand (f x) = [f x]"
        using Inr False by (simp add: isIterable_cases(3))
      ultimately show ?thesis
        using IH' ok by (simp add: fm)
    qed
  qed
qed

lemma yields_flatMap:
  assumes "yields S t"
  shows "yields (flatMap S f) (flatMapped f t)"
proof -
  obtain xs ending where t: "t = (xs, ending)"
    by (cases t)
  obtain ys ending' where fm: "flatMapped f (xs, ending) = (ys, ending')"
    by (cases "flatMapped f (xs, ending)")
  show ?thesis
  proof (cases "startFn S (captured S)")
    case None
    with assms show ?thesis
      by (simp add: t yields_eq)
  next
    case (Some a)
    show ?thesis
    proof (cases a)
      case (Inl err)
      with Some assms have "xs = []" "ending = Throws err"
        by (simp_all add: t yields_eq)
      then show ?thesis
        using Some Inl fm by (auto simp: t yields_eq flatMap_sel)
    next
      case (Inr se)
      obtain s e where se: "se = (s, e)"
        by (cases se)
      from assms have "runs (next_of S) (s, e) xs ending"
        by (simp add: t yields_eq Some Inr se)
      from runs_flatMap [OF this, of f] show ?thesis
        by (simp add: t fm yields_eq flatMap_sel Some Inr se)
    qed
  qed
qed

lemma plain_sel:
  "captured (plain S) = captured S"
  "startFn (plain S) e =
     (case startFn S e of
        None \<Rightarrow> None
      | Some (Inl err) \<Rightarrow> Some (Inl err)
      | Some (Inr (s, e')) \<Rightarrow> Some (Inr (Plain s, e')))"
  "next_of (plain S) (Plain s, e) =
     (case next_of S (s, e) of
        None \<Rightarrow> None
      | Some (Inl err) \<Rightarrow> Some (Inl err)
      | Some (Inr (r, s', e')) \<Rightarrow> Some (Inr (r, Plain s', e')))"
  by (simp_all add: plain_def next_of_def)

lemma yields_plain:
  assumes "yields S t"
  shows "yields (plain S) t"
proof -
  obtain xs ending where t: "t = (xs, ending)"
    by (cases t)
  have "runs (next_of (plain S)) ((\<lambda>(s, e). (Plain s, e)) i) xs ending
      = runs (next_of S) i xs ending" for i
    by (rule runs_wrap) (auto simp: plain_sel split: option.splits sum.splits)
  from this [of "(s, e)" for s e] show ?thesis
    using assms
    by (auto simp: t yields_eq plain_sel split: option.splits sum.splits)
qed

lemma flat_once_sel:
  "captured (flat_once X) = captured X"
  "startFn (flat_once X) e =
     (case startFn X e of
        None \<Rightarrow> None
      | Some (Inl err) \<Rightarrow> Some (Inl err)
      | Some (Inr (s, e')) \<Rightarrow> Some (Inr (Flat (FlatMapState s None), e')))"
  "next_of (flat_once X) (Flat fm, e) =
     (case next_of (flatMap X (\<lambda>v. v)) (fm, e) of
        None \<Rightarrow> None
      | Some (Inl err) \<Rightarrow> Some (Inl err)
      | Some (Inr (r, fm', e')) \<Rightarrow> Some (Inr (r, Flat fm', e')))"
  by (simp_all add: flat_once_def next_of_def flatMap_sel)

lemma yields_flat_once:
  assumes "yields X t"
  shows "yields (flat_once X) (flatMapped (\<lambda>v. v) t)"
proof -
  obtain ys ending' where fm: "flatMapped (\<lambda>v. v) t = (ys, ending')"
    by (cases "flatMapped (\<lambda>v. v) t")
  have w: "runs (next_of (flat_once X)) ((\<lambda>(fm, e). (Flat fm, e)) i) ys ending'
      = runs (next_of (flatMap X (\<lambda>v. v))) i ys ending'" for i
    by (rule runs_wrap) (auto simp: flat_once_sel split: option.splits sum.splits)
  from yields_flatMap [OF assms, of "\<lambda>v. v"]
  have "yields (flatMap X (\<lambda>v. v)) (ys, ending')"
    by (simp add: fm)
  then show ?thesis
    using w [of "(fm, e)" for fm e]
    by (auto simp: fm yields_eq flat_once_sel flatMap_sel split: option.splits sum.splits)
qed


lemma flat_one: "flat frames (Finite 1) S = Some (Inr (flat_once S))"
  by (subst flat.simps) simp










text \<open>
  Claim C10 does not hold of the code. A value that is \<^verbatim>\<open>undefined\<close> or \<^verbatim>\<open>null\<close> is not
  iterable, and \<^verbatim>\<open>flatMap\<close> and \<^verbatim>\<open>flat\<close> do not yield it as it is: \<^verbatim>\<open>isIterable\<close> reads a
  property of it (line 843) and throws a \<^verbatim>\<open>TypeError\<close>. So \<^verbatim>\<open>toArray()\<close> throws on
  \<^verbatim>\<open>stream([1]).flatMap(v => undefined)\<close>, on \<^verbatim>\<open>stream([1, undefined]).flat()\<close> and on
  \<^verbatim>\<open>stream([1, null]).flat()\<close>. On every other value the code does what the claim says.
  When the stream yields the trace \<open>t\<close>, \<^verbatim>\<open>flatMap(callbackfn)\<close> yields the trace in which
  every value \<open>x\<close> of \<open>t\<close> is replaced by the items of \<open>callbackfn x\<close> when that is an array,
  a string or an iterable object, and by \<open>callbackfn x\<close> itself otherwise, up to the first
  \<open>x\<close> for which \<open>callbackfn x\<close> is \<^verbatim>\<open>undefined\<close> or \<^verbatim>\<open>null\<close>, where the \<^verbatim>\<open>TypeError\<close> is
  thrown; \<^verbatim>\<open>flat()\<close> does the same with the values themselves. From the string \<^verbatim>\<open>'ab'\<close>,
  the number 1, the array \<^verbatim>\<open>[2]\<close>, a \<^verbatim>\<open>Set\<close> with the element 3 and an object that is not
  iterable, \<^verbatim>\<open>flatMap\<close> with the identity yields the two characters, the number, the item
  of the array, the element of the set and the object.
\<close>

theorem flatMap_throws_on_undefined:
  "(yields S t \<longrightarrow> yields (flatMap S callbackfn) (flatMapped callbackfn t)) \<and>
   (yields S t \<longrightarrow> yields (flat_once (plain S)) (flatMapped (\<lambda>v. v) t)) \<and>
   isIterable Undefined = Inl TypeError \<and>
   isIterable Null = Inl TypeError \<and>
   stream (Arr [Num 1]) = Some (Inr (iterable_stream (Arr [Num 1]))) \<and>
   toArray (flatMap (iterable_stream (Arr [Num 1])) to_undefined) = Some (Inl TypeError) \<and>
   then_do (stream (Arr [Num 1, Undefined]))
     (\<lambda>s. then_do (flat 10000 (Finite 1) (plain s)) toArray) = Some (Inl TypeError) \<and>
   then_do (stream (Arr [Num 1, Null]))
     (\<lambda>s. then_do (flat 10000 (Finite 1) (plain s)) toArray) = Some (Inl TypeError) \<and>
   returned (toArray (flatMap
       (iterable_stream (Arr [Str ''ab'', Num 1, Arr [Num 2], Iterable [Num 3] Undefined, Obj 0]))
       (\<lambda>v. v)))
     = Some [Str ''a'', Str ''b'', Num 1, Num 2, Num 3, Obj 0]"
proof -
  have S: "yields (iterable_stream (Arr xs)) (xs, Done Undefined)" for xs
    by (simp add: yields_iterable_stream)
  have a: "toArray (flatMap (iterable_stream (Arr [Num 1])) to_undefined) = Some (Inl TypeError)"
    using yields_flatMap [OF S, of "[Num 1]" to_undefined]
    by (intro toArray_throws [where xs = "[]"]) (simp add: to_undefined_def)
  have f: "flat 10000 (Finite 1) X = Some (Inr (flat_once X))" for X :: "(SourceState FlatState, unit) StreamImpl"
    by (rule flat_one)
  have b: "toArray (flat_once (plain (iterable_stream (Arr [Num 1, Undefined])))) = Some (Inl TypeError)"
    using yields_flat_once [OF yields_plain [OF S], of "[Num 1, Undefined]"]
    by (intro toArray_throws [where xs = "[Num 1]"]) simp
  have c: "toArray (flat_once (plain (iterable_stream (Arr [Num 1, Null])))) = Some (Inl TypeError)"
    using yields_flat_once [OF yields_plain [OF S], of "[Num 1, Null]"]
    by (intro toArray_throws [where xs = "[Num 1]"]) simp
  have d: "returned (toArray (flatMap
       (iterable_stream (Arr [Str ''ab'', Num 1, Arr [Num 2], Iterable [Num 3] Undefined, Obj 0]))
       (\<lambda>v. v)))
     = Some [Str ''a'', Str ''b'', Num 1, Num 2, Num 3, Obj 0]"
    using yields_flatMap [OF S,
        of "[Str ''ab'', Num 1, Arr [Num 2], Iterable [Num 3] Undefined, Obj 0]" "\<lambda>v. v"]
      returned_toArray_yields [of _ "[Str ''a'', Str ''b'', Num 1, Num 2, Num 3, Obj 0]" Undefined]
    by (simp add: defined_def)
  show ?thesis
    using a b c d
    by (simp add: stream_Arr f yields_flatMap yields_flat_once yields_plain)
qed

text \<open>
  Claim C10 at \<^verbatim>\<open>stream([1]).flatMap(v => undefined)\<close>, at \<^verbatim>\<open>stream([1, null]).flat()\<close>
  and at \<^verbatim>\<open>stream(['ab', 1, new Set([3])])\<close> with the identity as callback.
\<close>

theorem flatMap_throws_on_undefined_witness:
  "yields (iterable_stream (Arr [Num 1])) ([Num 1], Done Undefined) \<and>
   yields (flatMap (iterable_stream (Arr [Num 1])) to_undefined) ([], Throws TypeError) \<and>
   yields (iterable_stream (Arr [Num 1, Null])) ([Num 1, Null], Done Undefined) \<and>
   yields (flat_once (plain (iterable_stream (Arr [Num 1, Null])))) ([Num 1], Throws TypeError) \<and>
   yields (iterable_stream (Arr [Str ''ab'', Num 1, Iterable [Num 3] Undefined]))
     ([Str ''ab'', Num 1, Iterable [Num 3] Undefined], Done Undefined) \<and>
   yields (flatMap (iterable_stream (Arr [Str ''ab'', Num 1, Iterable [Num 3] Undefined])) (\<lambda>v. v))
     ([Str ''a'', Str ''b'', Num 1, Num 3], Done Undefined)"
proof -
  have S: "yields (iterable_stream (Arr xs)) (xs, Done Undefined)" for xs
    by (simp add: yields_iterable_stream)
  have a: "yields (flatMap (iterable_stream (Arr [Num 1])) to_undefined) ([], Throws TypeError)"
    using flatMap_throws_on_undefined
      [of "iterable_stream (Arr [Num 1])" "([Num 1], Done Undefined)" to_undefined, THEN conjunct1] S
    by (simp add: to_undefined_def)
  have b: "yields (flat_once (plain (iterable_stream (Arr [Num 1, Null])))) ([Num 1], Throws TypeError)"
    using flatMap_throws_on_undefined
      [of "iterable_stream (Arr [Num 1, Null])" "([Num 1, Null], Done Undefined)",
       THEN conjunct2, THEN conjunct1] S
    by simp
  have c: "yields (flatMap (iterable_stream (Arr [Str ''ab'', Num 1, Iterable [Num 3] Undefined])) (\<lambda>v. v))
      ([Str ''a'', Str ''b'', Num 1, Num 3], Done Undefined)"
    using flatMap_throws_on_undefined
      [of "iterable_stream (Arr [Str ''ab'', Num 1, Iterable [Num 3] Undefined])"
          "([Str ''ab'', Num 1, Iterable [Num 3] Undefined], Done Undefined)" "\<lambda>v. v",
       THEN conjunct1] S
    by simp
  show ?thesis
    using S [of "[Num 1]"] S [of "[Num 1, Null]"] S [of "[Str ''ab'', Num 1, Iterable [Num 3] Undefined]"]
      a b c
    by (intro conjI)
qed

section \<open>Tree streams\<close>

lemma nodes_eq: "nodes t = t # descendants t"
  by (cases t) (simp add: descendants_def)

lemma unfolds_iff:
  "unfolds children t \<longleftrightarrow>
   children (label t) = map label (subtrees t) \<and> (\<forall>s\<in>set (subtrees t). unfolds children s)"
  by (cases t) simp

lemma rest_nodes_simps:
  "rest_nodes [] = []"
  "rest_nodes (fss @ [[]]) = rest_nodes fss"
  "rest_nodes (fss @ [t # fs]) = t # descendants t @ rest_nodes (fss @ [fs])"
  by (simp_all add: rest_nodes_def nodes_eq)

lemma rest_nodes_push: "rest_nodes (fss @ [subtrees n]) = descendants n @ rest_nodes fss"
  by (simp add: rest_nodes_def descendants_def)

lemma stack_unfolds_simps:
  "stack_unfolds children []"
  "stack_unfolds children (fss @ [fs]) \<longleftrightarrow>
     stack_unfolds children fss \<and> (\<forall>t\<in>set fs. unfolds children t)"
  by (auto simp: stack_unfolds_def)

lemma state_of_snoc:
  "iterators (state_of (fss @ [fs])) \<noteq> []"
  "last (iterators (state_of (fss @ [fs]))) = map label fs"
  "state_of (fss @ [fs])\<lparr>iterators := butlast (iterators (state_of (fss @ [fs])))\<rparr> = state_of fss"
  by (simp_all add: state_of_def)

lemma TreeStream_loop_done:
  "rest_nodes fss = [] \<Longrightarrow> TreeStream_loop children (state_of fss) = (DONE_RESULT, state_of [])"
proof (induction fss rule: rev_induct)
  case Nil
  show ?case
    by (subst TreeStream_loop.simps) (simp add: state_of_def)
next
  case (snoc fs fss)
  from snoc.prems have fs: "fs = []" and rest: "rest_nodes fss = []"
    by (cases fs; simp add: rest_nodes_simps)+
  show ?case
    using snoc.IH [OF rest]
    by (subst TreeStream_loop.simps) (simp add: fs state_of_snoc del: butlast_snoc)
qed

lemma TreeStream_loop_step:
  "rest_nodes fss = n # ns \<Longrightarrow> stack_unfolds children fss \<Longrightarrow>
   \<exists>fss'. TreeStream_loop children (state_of fss)
             = (\<lparr>done = False, value = label n\<rparr>, state_of (fss' @ [subtrees n])) \<and>
          ns = descendants n @ rest_nodes fss' \<and>
          stack_unfolds children (fss' @ [subtrees n])"
proof (induction fss rule: rev_induct)
  case Nil
  then show ?case by (simp add: rest_nodes_simps)
next
  case (snoc fs fss)
  show ?case
  proof (cases fs)
    case Nil
    with snoc.prems have "rest_nodes fss = n # ns" "stack_unfolds children fss"
      by (simp_all add: rest_nodes_simps stack_unfolds_simps)
    from snoc.IH [OF this] obtain fss' where
      "TreeStream_loop children (state_of fss)
         = (\<lparr>done = False, value = label n\<rparr>, state_of (fss' @ [subtrees n]))"
      "ns = descendants n @ rest_nodes fss'"
      "stack_unfolds children (fss' @ [subtrees n])"
      by blast
    then show ?thesis
      by (subst TreeStream_loop.simps) (auto simp: Nil state_of_snoc simp del: butlast_snoc)
  next
    case (Cons t rest)
    with snoc.prems have n: "t = n" and ns: "ns = descendants n @ rest_nodes (fss @ [rest])"
      and u: "stack_unfolds children fss" "unfolds children n" "\<forall>t\<in>set rest. unfolds children t"
      by (auto simp: rest_nodes_simps stack_unfolds_simps)
    from u(2) have c: "children (label n) = map label (subtrees n)"
      and d: "\<forall>s\<in>set (subtrees n). unfolds children s"
      by (simp_all add: unfolds_iff [of children n])
    have "TreeStream_loop children (state_of (fss @ [fs]))
        = (\<lparr>done = False, value = label n\<rparr>, state_of ((fss @ [rest]) @ [subtrees n]))"
      by (subst TreeStream_loop.simps) (simp add: Cons n c state_of_def)
    moreover have "stack_unfolds children ((fss @ [rest]) @ [subtrees n])"
      using u d by (auto simp: stack_unfolds_def)
    ultimately show ?thesis
      using ns by blast
  qed
qed

lemma next_of_TreeStreamImpl:
  "next_of (TreeStreamImpl root children) (state_of fss, e)
     = (case TreeStream_loop children (state_of fss) of
          (next, state') \<Rightarrow> Some (Inr (next, state', e)))"
  "next_of (TreeStreamImpl root children) (state_of (fss @ [fs])\<lparr>pruned := True\<rparr>, e)
     = next_of (TreeStreamImpl root children) (state_of fss, e)"
  by (simp_all add: next_of_def TreeStreamImpl_def state_of_def)

lemma drains_TreeStreamImpl:
  "rest_nodes fss = ns \<Longrightarrow> stack_unfolds children fss \<Longrightarrow>
   drains (next_of (TreeStreamImpl root children)) (state_of fss, e) (map label ns)
     = Some (state_of [], e)"
proof (induction ns arbitrary: fss)
  case Nil
  then show ?case
    by (simp add: next_of_TreeStreamImpl TreeStream_loop_done DONE_RESULT_def)
next
  case (Cons n ns)
  from TreeStream_loop_step [OF Cons.prems] obtain fss' where
    step: "TreeStream_loop children (state_of fss)
        = (\<lparr>done = False, value = label n\<rparr>, state_of (fss' @ [subtrees n]))" and
    ns: "ns = descendants n @ rest_nodes fss'" and
    u: "stack_unfolds children (fss' @ [subtrees n])"
    by blast
  have "rest_nodes (fss' @ [subtrees n]) = ns"
    by (simp add: ns rest_nodes_push)
  from Cons.IH [OF this u] show ?case
    by (simp add: next_of_TreeStreamImpl step)
qed

lemma pulls_TreeStreamImpl:
  "rest_nodes fss = ns \<Longrightarrow> stack_unfolds children fss \<Longrightarrow> k < length ns \<Longrightarrow>
   \<exists>fss'. pulls (next_of (TreeStreamImpl root children)) (state_of fss, e)
             (map label (take (Suc k) ns))
           = Some (state_of (fss' @ [subtrees (ns ! k)]), e) \<and>
          stack_unfolds children fss' \<and>
          drop (Suc k) ns = descendants (ns ! k) @ rest_nodes fss'"
proof (induction k arbitrary: fss ns)
  case 0
  then obtain n ns' where ns: "ns = n # ns'"
    by (cases ns) auto
  from TreeStream_loop_step [OF "0.prems"(1) [unfolded ns] "0.prems"(2)] obtain fss' where
    step: "TreeStream_loop children (state_of fss)
        = (\<lparr>done = False, value = label n\<rparr>, state_of (fss' @ [subtrees n]))" and
    ns': "ns' = descendants n @ rest_nodes fss'" and
    u: "stack_unfolds children (fss' @ [subtrees n])"
    by blast
  from u have "stack_unfolds children fss'"
    by (simp add: stack_unfolds_simps)
  then show ?case
    using ns' by (auto simp: ns next_of_TreeStreamImpl step)
next
  case (Suc k)
  then obtain n ns' where ns: "ns = n # ns'"
    by (cases ns) auto
  from TreeStream_loop_step [OF Suc.prems(1) [unfolded ns] Suc.prems(2)] obtain fss1 where
    step: "TreeStream_loop children (state_of fss)
        = (\<lparr>done = False, value = label n\<rparr>, state_of (fss1 @ [subtrees n]))" and
    ns': "ns' = descendants n @ rest_nodes fss1" and
    u: "stack_unfolds children (fss1 @ [subtrees n])"
    by blast
  have r: "rest_nodes (fss1 @ [subtrees n]) = ns'"
    by (simp add: ns' rest_nodes_push)
  from Suc.prems(3) have k: "k < length ns'"
    by (simp add: ns)
  from Suc.IH [OF r u k] obtain fss' where
    "pulls (next_of (TreeStreamImpl root children)) (state_of (fss1 @ [subtrees n]), e)
       (map label (take (Suc k) ns'))
     = Some (state_of (fss' @ [subtrees (ns' ! k)]), e)"
    "stack_unfolds children fss'"
    "drop (Suc k) ns' = descendants (ns' ! k) @ rest_nodes fss'"
    by blast
  then show ?case
    by (auto simp: ns next_of_TreeStreamImpl step)
qed

lemma TreeStreamImpl_start:
  "unfolds children t \<Longrightarrow> label t = root \<Longrightarrow>
   startFn (TreeStreamImpl root children) e = Some (Inr (state_of [subtrees t], e)) \<and>
   rest_nodes [subtrees t] = descendants t \<and>
   stack_unfolds children [subtrees t]"
  by (cases t) (auto simp: TreeStreamImpl_def state_of_def rest_nodes_def descendants_def stack_unfolds_def)

lemma iterates_TreeStreamImpl:
  assumes "unfolds children t" and "label t = root"
  shows "iterates (TreeStreamImpl root children) (map label (descendants t)) = Some (state_of [], ())"
  using TreeStreamImpl_start [OF assms, of "()"]
    drains_TreeStreamImpl [of "[subtrees t]" "descendants t" children root "()"]
  by (simp add: iterates_eq)

lemma iterates_pruned_TreeStreamImpl:
  assumes "unfolds children t" and "label t = root" and "k < length (descendants t)"
  shows "iterates_pruned (TreeStreamImpl root children)
           (map label (take (Suc k) (descendants t)))
           (map label (drop (Suc k + length (descendants (descendants t ! k))) (descendants t)))
         = Some (state_of [], ()) \<and>
         take (length (descendants (descendants t ! k))) (drop (Suc k) (descendants t))
           = descendants (descendants t ! k)"
proof -
  let ?D = "descendants t" and ?T = "TreeStreamImpl root children"
  note start = TreeStreamImpl_start [OF assms(1,2), of "()"]
  from pulls_TreeStreamImpl [of "[subtrees t]" ?D children k root "()"] start assms(3)
  obtain fss' where
    p: "pulls (next_of ?T) (state_of [subtrees t], ()) (map label (take (Suc k) ?D))
          = Some (state_of (fss' @ [subtrees (?D ! k)]), ())" and
    u: "stack_unfolds children fss'" and
    d: "drop (Suc k) ?D = descendants (?D ! k) @ rest_nodes fss'"
    by blast
  have r: "rest_nodes fss' = drop (Suc k + length (descendants (?D ! k))) ?D"
    using arg_cong [OF d, of "drop (length (descendants (?D ! k)))"]
    by (simp add: add.commute)
  have "drains (next_of ?T) (state_of (fss' @ [subtrees (?D ! k)])\<lparr>pruned := True\<rparr>, ())
          (map label (rest_nodes fss'))
      = drains (next_of ?T) (state_of fss', ()) (map label (rest_nodes fss'))"
    by (rule drains_cong_state) (simp add: next_of_TreeStreamImpl)
  also have "\<dots> = Some (state_of [], ())"
    using u by (simp add: drains_TreeStreamImpl)
  finally have "iterates_pruned ?T (map label (take (Suc k) ?D)) (map label (rest_nodes fss'))
      = Some (state_of [], ())"
    using start p by (simp add: iterates_pruned_def iterator_def prune_def)
  moreover have "take (length (descendants (?D ! k))) (drop (Suc k) ?D) = descendants (?D ! k)"
    by (simp add: d)
  ultimately show ?thesis
    by (simp add: r)
qed

lemma example_unfolds:
  "unfolds example_children
     (Node (Str ''A'') [Node (Str ''B'') [Node (Str ''D'') []], Node (Str ''C'') []])"
  by (simp add: example_children_def)

text \<open>
  Claim C3. For every root and children function that unfold a finite tree, the tree stream
  yields the descendants of the root in pre-order, each node once and the root not among
  them. For the tree in which A has the children B and C and B has the child D, it yields
  B, D, C; when \<^verbatim>\<open>prune()\<close> is called right after B has been produced, the rest of that
  iteration yields C only.
\<close>

theorem tree_preorder:
  assumes "unfolds children t" and "label t = root"
  shows "iterates (TreeStreamImpl root children) (map label (descendants t)) \<noteq> None \<and>
         returned (toArray (TreeStreamImpl root children)) = Some (defined (map label (descendants t))) \<and>
         iterates (TreeStreamImpl (Str ''A'') example_children) [Str ''B'', Str ''D'', Str ''C''] \<noteq> None \<and>
         iterates_pruned (TreeStreamImpl (Str ''A'') example_children) [Str ''B''] [Str ''C''] \<noteq> None"
proof -
  let ?t = "Node (Str ''A'') [Node (Str ''B'') [Node (Str ''D'') []], Node (Str ''C'') []]"
  have "iterates (TreeStreamImpl (Str ''A'') example_children) (map label (descendants ?t)) \<noteq> None"
    using iterates_TreeStreamImpl [OF example_unfolds, of "Str ''A''"] by simp
  moreover have "iterates_pruned (TreeStreamImpl (Str ''A'') example_children)
      (map label (take (Suc 0) (descendants ?t)))
      (map label (drop (Suc 0 + length (descendants (descendants ?t ! 0))) (descendants ?t))) \<noteq> None"
    using iterates_pruned_TreeStreamImpl [OF example_unfolds, of "Str ''A''" 0]
    by (simp add: descendants_def)
  ultimately show ?thesis
    using iterates_TreeStreamImpl [OF assms] returned_toArray [OF iterates_TreeStreamImpl [OF assms]]
    by (simp add: descendants_def)
qed

text \<open>Claim C3 at the tree with the nodes A, B, C and D.\<close>

theorem tree_preorder_witness:
  "unfolds example_children
     (Node (Str ''A'') [Node (Str ''B'') [Node (Str ''D'') []], Node (Str ''C'') []]) \<and>
   returned (toArray (TreeStreamImpl (Str ''A'') example_children))
     = Some [Str ''B'', Str ''D'', Str ''C'']"
  using tree_preorder [OF example_unfolds, of "Str ''A''"]
  by (simp add: example_children_def descendants_def defined_def)

text \<open>
  Claim C4. Let \<open>n\<close> be the node at position \<open>k\<close> of the traversal of a finite tree. The
  traversal consists of the nodes up to \<open>n\<close>, then the proper descendants of \<open>n\<close>, then the
  remaining nodes; without pruning the stream yields all of them in this order. When
  \<^verbatim>\<open>prune()\<close> is called right after \<open>n\<close> has been produced, the iterator has yielded the
  nodes up to \<open>n\<close> and goes on to yield exactly the remaining nodes, in the same order: the
  proper descendants of \<open>n\<close> are left out and nothing else changes.
\<close>

theorem prune_removes_subtree:
  assumes "unfolds children t" and "label t = root" and "k < length (descendants t)"
  shows "descendants t
           = take (Suc k) (descendants t) @ descendants (descendants t ! k)
             @ drop (Suc k + length (descendants (descendants t ! k))) (descendants t) \<and>
         iterates (TreeStreamImpl root children) (map label (descendants t)) \<noteq> None \<and>
         iterates_pruned (TreeStreamImpl root children)
           (map label (take (Suc k) (descendants t)))
           (map label (drop (Suc k + length (descendants (descendants t ! k))) (descendants t)))
         \<noteq> None"
proof -
  let ?D = "descendants t"
  let ?m = "length (descendants (?D ! k))"
  note p = iterates_pruned_TreeStreamImpl [OF assms]
  have "?D = take (Suc k) ?D @ drop (Suc k) ?D"
    by simp
  also have "drop (Suc k) ?D = take ?m (drop (Suc k) ?D) @ drop ?m (drop (Suc k) ?D)"
    by (rule append_take_drop_id [symmetric])
  also have "take ?m (drop (Suc k) ?D) = descendants (?D ! k)"
    using p by simp
  also have "drop ?m (drop (Suc k) ?D) = drop (Suc k + ?m) ?D"
    by (simp add: add.commute)
  finally have "?D = take (Suc k) ?D @ descendants (?D ! k) @ drop (Suc k + ?m) ?D" .
  then show ?thesis
    using p iterates_TreeStreamImpl [OF assms(1,2)] by simp
qed

text \<open>Claim C4 at the tree with the nodes A, B, C and D, pruned after B.\<close>

theorem prune_removes_subtree_witness:
  "unfolds example_children
     (Node (Str ''A'') [Node (Str ''B'') [Node (Str ''D'') []], Node (Str ''C'') []]) \<and>
   iterates (TreeStreamImpl (Str ''A'') example_children) [Str ''B'', Str ''D'', Str ''C''] \<noteq> None \<and>
   iterates_pruned (TreeStreamImpl (Str ''A'') example_children) [Str ''B''] [Str ''C''] \<noteq> None"
  using prune_removes_subtree [OF example_unfolds, of "Str ''A''" 0]
  by (simp add: example_children_def descendants_def)

end
